theory Spec2Isabelle
  imports Main "HOL-Library.Sublist"
begin

section \<open>The browser state that static/js/main.js reads and writes\<close>

text \<open>
  The script runs inside one \<^verbatim>\<open>DOMContentLoaded\<close> handler. The parts of it that
  schedule timers, listen to document activity and lock submit buttons are embedded
  here; tooltips, file-input checks and the clipboard helpers touch none of that state
  and are left out.

  Time is in milliseconds. A pending timer carries the id that \<^verbatim>\<open>setTimeout\<close>
  returned, the instant it becomes due and the callback it will run.
\<close>

datatype callback =
    DismissAlerts
  | ShowTimeoutWarning
  | AutoRelease nat string

record timer =
  tid :: nat
  due :: nat
  cb :: callback

text \<open>
  A listener for \<^verbatim>\<open>submit\<close> registered on a form: the validation listener of
  lines 24-30, or the lock listener of lines 179-191 with the button it closes over.
\<close>

datatype listener = Validate | Lock nat

record request =
  url :: string
  http_method :: string

text \<open>
  The buttons are the elements that \<^verbatim>\<open>querySelectorAll('button[type="submit"]')\<close>
  returns, in document order; \<open>closest_form\<close> is the index of the form that
  \<^verbatim>\<open>button.closest('form')\<close> finds, if any. Forms are not nested (HTML does not
  allow it), so a submit event reaches the listeners of one form only.

  Assigning a string to \<^verbatim>\<open>innerHTML\<close> parses it into the children of the button, and
  reading \<^verbatim>\<open>innerHTML\<close> serialises them again. The field \<open>innerHTML\<close> is what a read
  returns. What a read returns after a string has been assigned is the browser's doing,
  not the script's: it is a parameter of the page, \<open>page_readback\<close>, kept in the state
  as \<open>readback\<close>. Markup such as \<^verbatim>\<open>Save\<close> reads back unchanged; a \<^verbatim>\<open>pre\<close> element
  whose text starts with a line feed reads back without that line feed.
\<close>

record button =
  closest_form :: "nat option"
  disabled :: bool
  innerHTML :: string

record form =
  classList :: "string list"

record page =
  pathname :: string
  page_forms :: "form list"
  page_buttons :: "button list"
  page_readback :: "string \<Rightarrow> string"

text \<open>
  \<open>timeoutWarning\<close> is the closure variable of line 150 (\<open>None\<close> while it is
  \<^verbatim>\<open>undefined\<close>). \<open>confirms\<close> counts the prompts \<^verbatim>\<open>confirm\<close> has shown,
  \<open>fetches\<close> logs the requests \<^verbatim>\<open>fetch\<close> has issued and \<open>submissions\<close> the
  form submissions the browser has started after an unprevented submit event.
\<close>

record state =
  now :: nat
  next_id :: nat
  timers :: "timer list"
  timeoutWarning :: "nat option"
  doc_listeners :: "string list"
  submit_listeners :: "(nat \<times> listener) list"
  forms :: "form list"
  buttons :: "button list"
  confirms :: nat
  fetches :: "request list"
  submissions :: "nat list"
  readback :: "string \<Rightarrow> string"

section \<open>Platform operations\<close>

definition setTimeout :: "callback \<Rightarrow> nat \<Rightarrow> state \<Rightarrow> nat \<times> state" where
  "setTimeout c delay s =
     (next_id s,
      s\<lparr>timers := timers s @ [\<lparr>tid = next_id s, due = now s + delay, cb = c\<rparr>],
        next_id := next_id s + 1\<rparr>)"

text \<open>\<^verbatim>\<open>clearTimeout\<close> of \<^verbatim>\<open>undefined\<close>, or of an id that is no longer pending, does nothing.\<close>

definition clearTimeout :: "nat option \<Rightarrow> state \<Rightarrow> state" where
  "clearTimeout h s =
     (case h of
        None \<Rightarrow> s
      | Some i \<Rightarrow> s\<lparr>timers := filter (\<lambda>t. tid t \<noteq> i) (timers s)\<rparr>)"

definition fetch :: "string \<Rightarrow> string \<Rightarrow> state \<Rightarrow> state" where
  "fetch u m s = s\<lparr>fetches := fetches s @ [\<lparr>url = u, http_method = m\<rparr>]\<rparr>"

text \<open>
  \<^verbatim>\<open>confirm\<close> blocks the event loop while the prompt is open: the user's answer comes
  with the time the prompt stayed open.
\<close>

definition confirm :: "bool \<times> nat \<Rightarrow> state \<Rightarrow> bool \<times> state" where
  "confirm answer s =
     (fst answer, s\<lparr>confirms := confirms s + 1, now := now s + snd answer\<rparr>)"

text \<open>\<^verbatim>\<open>String.prototype.includes\<close>: the pattern occurs somewhere in the string.\<close>

fun str_includes :: "string \<Rightarrow> string \<Rightarrow> bool" where
  "str_includes [] pat = (pat = [])"
| "str_includes (c # cs) pat = (prefix pat (c # cs) \<or> str_includes cs pat)"

text \<open>\<^verbatim>\<open>classList.add\<close>: a token that is present is not added again.\<close>

definition classList_add :: "string \<Rightarrow> string list \<Rightarrow> string list" where
  "classList_add c cs = (if c \<in> set cs then cs else cs @ [c])"

section \<open>The admin session timeout warning (lines 148-172)\<close>

definition idle_threshold :: nat where
  "idle_threshold = 25 * 60 * 1000"

definition resetTimer :: "state \<Rightarrow> state" where
  "resetTimer s =
     (let s1 = clearTimeout (timeoutWarning s) s;
          (i, s2) = setTimeout ShowTimeoutWarning idle_threshold s1
      in s2\<lparr>timeoutWarning := Some i\<rparr>)"

definition showTimeoutWarning :: "bool \<times> nat \<Rightarrow> state \<Rightarrow> state" where
  "showTimeoutWarning answer s =
     (let (ok, s1) = confirm answer s
      in if ok then fetch ''/admin/keep-alive'' ''POST'' (resetTimer s1) else s1)"

definition activity_events :: "string list" where
  "activity_events = [''click'', ''mousemove'', ''keypress'', ''scroll'']"

definition install_guard :: "string \<Rightarrow> state \<Rightarrow> state" where
  "install_guard path s =
     (if str_includes path ''/admin/''
      then resetTimer (s\<lparr>doc_listeners := doc_listeners s @ activity_events\<rparr>)
      else s)"

section \<open>Form validation and the submit lock (lines 21-31 and 174-193)\<close>

definition busy_label :: string where
  \<open>busy_label =
     ''<span class="spinner-border spinner-border-sm me-2" role="status" aria-hidden="true"></span>Processing...''\<close>

definition safety_window :: nat where
  "safety_window = 5000"

text \<open>
  The validation listener: \<open>valid\<close> is what \<^verbatim>\<open>form.checkValidity()\<close> returns when the
  event fires. The flag it returns says whether \<^verbatim>\<open>preventDefault\<close> was called.
  \<^verbatim>\<open>stopPropagation\<close> does not keep the other listeners of the same form from running.
\<close>

definition validate_listener :: "nat \<Rightarrow> bool \<Rightarrow> state \<Rightarrow> bool \<times> state" where
  "validate_listener f valid s =
     (\<not> valid,
      if f < length (forms s)
      then s\<lparr>forms := (forms s)[f := (forms s ! f)\<lparr>classList :=
                 classList_add ''was-validated'' (classList (forms s ! f))\<rparr>]\<rparr>
      else s)"

text \<open>
  The lock listener closes over a button of the page, so \<open>b\<close> is always an index of
  \<open>buttons s\<close>; the guard only makes the function total.
\<close>

definition lock_listener :: "nat \<Rightarrow> state \<Rightarrow> state" where
  "lock_listener b s =
     (if b < length (buttons s)
      then
        let originalText = innerHTML (buttons s ! b);
            s1 = s\<lparr>buttons := (buttons s)[b := (buttons s ! b)
                     \<lparr>disabled := True, innerHTML := readback s busy_label\<rparr>]\<rparr>
        in snd (setTimeout (AutoRelease b originalText) safety_window s1)
      else s)"

definition auto_release :: "nat \<Rightarrow> string \<Rightarrow> state \<Rightarrow> state" where
  "auto_release b originalText s =
     (if b < length (buttons s) \<and> disabled (buttons s ! b)
      then s\<lparr>buttons := (buttons s)[b := (buttons s ! b)
               \<lparr>disabled := False, innerHTML := readback s originalText\<rparr>]\<rparr>
      else s)"

fun run_listener :: "nat \<Rightarrow> bool \<Rightarrow> listener \<Rightarrow> bool \<times> state \<Rightarrow> bool \<times> state" where
  "run_listener f valid Validate (prevented, s) =
     (let (p, s') = validate_listener f valid s in (prevented \<or> p, s'))"
| "run_listener f valid (Lock b) (prevented, s) = (prevented, lock_listener b s)"

text \<open>
  A submit event on form \<open>f\<close>: its listeners run in the order they were registered.
\<close>

definition submit_handlers :: "nat \<Rightarrow> bool \<Rightarrow> state \<Rightarrow> bool \<times> state" where
  "submit_handlers f valid s =
     fold (run_listener f valid)
       (map snd (filter (\<lambda>r. fst r = f) (submit_listeners s))) (False, s)"

text \<open>
  Only after every listener has returned does the browser start the submission, and
  only when no listener prevented it.
\<close>

definition dispatch_submit :: "nat \<Rightarrow> bool \<Rightarrow> state \<Rightarrow> state" where
  "dispatch_submit f valid s =
     (let (prevented, s') = submit_handlers f valid s
      in if prevented then s' else s'\<lparr>submissions := submissions s' @ [f]\<rparr>)"

section \<open>Page load\<close>

definition validation_listeners :: "form list \<Rightarrow> (nat \<times> listener) list" where
  "validation_listeners fs =
     map (\<lambda>f. (f, Validate))
       (filter (\<lambda>f. ''needs-validation'' \<in> set (classList (fs ! f))) [0..<length fs])"

definition lock_listeners :: "button list \<Rightarrow> (nat \<times> listener) list" where
  "lock_listeners bs =
     concat (map (\<lambda>b. case closest_form (bs ! b) of
                          None \<Rightarrow> []
                        | Some f \<Rightarrow> [(f, Lock b)]) [0..<length bs])"

text \<open>
  The handler of \<^verbatim>\<open>DOMContentLoaded\<close>, run at instant \<open>t0\<close>, in the order of the
  source: the alert timer (line 13), the validation listeners (line 22), the session
  guard (line 149), the lock listeners (line 175). Timer ids start at 1.
\<close>

definition DOMContentLoaded :: "page \<Rightarrow> nat \<Rightarrow> state" where
  "DOMContentLoaded p t0 =
     (let s0 = \<lparr>now = t0, next_id = 1, timers = [], timeoutWarning = None,
                doc_listeners = [], submit_listeners = [],
                forms = page_forms p, buttons = page_buttons p,
                confirms = 0, fetches = [], submissions = [],
                readback = page_readback p\<rparr>;
          s1 = snd (setTimeout DismissAlerts 5000 s0);
          s2 = s1\<lparr>submit_listeners := validation_listeners (page_forms p)\<rparr>;
          s3 = install_guard (pathname p) s2
      in s3\<lparr>submit_listeners := submit_listeners s3 @ lock_listeners (page_buttons p)\<rparr>)"

section \<open>The event loop\<close>

text \<open>
  The user is a function: the answer to the \<open>n\<close>-th prompt and how long it stayed open.
  Closing an alert changes nothing of the state kept here.
\<close>

fun run_callback :: "(nat \<Rightarrow> bool \<times> nat) \<Rightarrow> callback \<Rightarrow> state \<Rightarrow> state" where
  "run_callback user DismissAlerts s = s"
| "run_callback user ShowTimeoutWarning s = showTimeoutWarning (user (confirms s)) s"
| "run_callback user (AutoRelease b originalText) s = auto_release b originalText s"

text \<open>
  A timer that fires leaves the pending set; its callback runs no earlier than its due
  instant.
\<close>

definition fire :: "(nat \<Rightarrow> bool \<times> nat) \<Rightarrow> timer \<Rightarrow> state \<Rightarrow> state" where
  "fire user t s =
     run_callback user (cb t)
       (s\<lparr>timers := filter (\<lambda>x. tid x \<noteq> tid t) (timers s), now := max (now s) (due t)\<rparr>)"

text \<open>Among the timers, the one due first; of two due together, the one set first.\<close>

fun earliest :: "timer list \<Rightarrow> timer option" where
  "earliest [] = None"
| "earliest (t # ts) =
     (case earliest ts of
        None \<Rightarrow> Some t
      | Some t' \<Rightarrow> if due t \<le> due t' then Some t else Some t')"

definition next_due :: "nat \<Rightarrow> state \<Rightarrow> timer option" where
  "next_due T s = earliest (filter (\<lambda>t. due t \<le> T) (timers s))"

text \<open>
  The work left before instant \<open>T\<close>: every firing takes a timer due by \<open>T\<close> away,
  and a confirmed warning puts one back that is due later than the one that fired.
\<close>

definition pending_work :: "nat \<Rightarrow> timer list \<Rightarrow> nat" where
  "pending_work T ts = sum_list (map (\<lambda>t. Suc T - due t) ts)"

lemma earliest_mem: "earliest ts = Some t \<Longrightarrow> t \<in> set ts"
  by (induction ts arbitrary: t) (auto split: option.splits if_splits)

lemma next_due_mem: "next_due T s = Some t \<Longrightarrow> t \<in> set (timers s) \<and> due t \<le> T"
  unfolding next_due_def by (auto dest: earliest_mem)

lemma pending_work_filter: "pending_work T (filter P ts) \<le> pending_work T ts"
  unfolding pending_work_def by (induction ts) auto

lemma pending_work_remove:
  "t \<in> set ts \<Longrightarrow>
   pending_work T (filter (\<lambda>x. tid x \<noteq> tid t) ts) + (Suc T - due t) \<le> pending_work T ts"
proof (induction ts)
  case Nil
  then show ?case by simp
next
  case (Cons a ts)
  show ?case
  proof (cases "tid a = tid t")
    case True
    have "pending_work T (filter (\<lambda>x. tid x \<noteq> tid t) ts) \<le> pending_work T ts"
      by (rule pending_work_filter)
    moreover have "due a = due t \<or> t \<in> set ts" using Cons.prems by auto
    ultimately show ?thesis using True Cons.IH
      by (auto simp: pending_work_def)
  next
    case False
    then have "t \<in> set ts" using Cons.prems by auto
    then show ?thesis using False Cons.IH by (auto simp: pending_work_def)
  qed
qed

lemma pending_work_append [simp]:
  "pending_work T (ts @ us) = pending_work T ts + pending_work T us"
  by (simp add: pending_work_def)

lemma timers_resetTimer:
  "timers (resetTimer s) =
     filter (\<lambda>t. case timeoutWarning s of None \<Rightarrow> True | Some i \<Rightarrow> tid t \<noteq> i) (timers s)
       @ [\<lparr>tid = next_id s, due = now s + idle_threshold, cb = ShowTimeoutWarning\<rparr>]"
  by (simp add: resetTimer_def clearTimeout_def setTimeout_def split: option.splits)

lemma timers_auto_release [simp]: "timers (auto_release b orig s) = timers s"
  by (simp add: auto_release_def)

lemma timers_showTimeoutWarning:
  "timers (showTimeoutWarning a s) =
     (if fst a
      then filter (\<lambda>t. case timeoutWarning s of None \<Rightarrow> True | Some i \<Rightarrow> tid t \<noteq> i) (timers s)
             @ [\<lparr>tid = next_id s, due = now s + snd a + idle_threshold, cb = ShowTimeoutWarning\<rparr>]
      else timers s)"
  by (simp add: showTimeoutWarning_def confirm_def fetch_def timers_resetTimer)

lemma pending_work_fire:
  assumes "t \<in> set (timers s)" and "due t \<le> T"
  shows "pending_work T (timers (fire user t s)) < pending_work T (timers s)"
proof -
  let ?ts = "filter (\<lambda>x. tid x \<noteq> tid t) (timers s)"
  have rem: "pending_work T ?ts + (Suc T - due t) \<le> pending_work T (timers s)"
    by (rule pending_work_remove [OF assms(1)])
  have pos: "0 < Suc T - due t" using assms(2) by simp
  show ?thesis
  proof (cases "cb t")
    case DismissAlerts
    then have "pending_work T (timers (fire user t s)) = pending_work T ?ts"
      by (simp add: fire_def)
    then show ?thesis using rem pos by linarith
  next
    case (AutoRelease b orig)
    then have "pending_work T (timers (fire user t s)) = pending_work T ?ts"
      by (simp add: fire_def)
    then show ?thesis using rem pos by linarith
  next
    case ShowTimeoutWarning
    show ?thesis
    proof (cases "fst (user (confirms s))")
      case False
      then have "pending_work T (timers (fire user t s)) = pending_work T ?ts"
        using ShowTimeoutWarning by (simp add: fire_def timers_showTimeoutWarning)
      then show ?thesis using rem pos by linarith
    next
      case True
      define n where "n = max (now s) (due t) + snd (user (confirms s)) + idle_threshold"
      have "pending_work T (timers (fire user t s))
              \<le> pending_work T ?ts + (Suc T - n)"
        using True ShowTimeoutWarning pending_work_filter [of T _ ?ts]
        by (simp add: fire_def timers_showTimeoutWarning n_def pending_work_def)
      moreover have "Suc T - n < Suc T - due t"
        using assms(2) by (simp add: n_def idle_threshold_def)
      ultimately show ?thesis using rem by linarith
    qed
  qed
qed

text \<open>
  Letting time pass up to instant \<open>T\<close>: the timers due by then fire one after the
  other, those set meanwhile included.
\<close>

function advance :: "(nat \<Rightarrow> bool \<times> nat) \<Rightarrow> nat \<Rightarrow> state \<Rightarrow> state" where
  "advance user T s =
     (case next_due T s of
        None \<Rightarrow> s\<lparr>now := max (now s) T\<rparr>
      | Some t \<Rightarrow> advance user T (fire user t s))"
  by pat_completeness auto
termination
  by (relation "measure (\<lambda>(user, T, s). pending_work T (timers s))")
     (auto dest!: next_due_mem intro: pending_work_fire)

declare advance.simps [simp del]

text \<open>
  What arrives from outside: an event of some type on the document (or bubbling up to
  it), or a submit event on a form together with what \<^verbatim>\<open>checkValidity\<close> will answer.
\<close>

datatype input = DocumentEvent string | SubmitEvent nat bool

definition dispatch_document :: "string \<Rightarrow> state \<Rightarrow> state" where
  "dispatch_document ev s = (if ev \<in> set (doc_listeners s) then resetTimer s else s)"

fun handle_input :: "input \<Rightarrow> state \<Rightarrow> state" where
  "handle_input (DocumentEvent ev) s = dispatch_document ev s"
| "handle_input (SubmitEvent f valid) s = dispatch_submit f valid s"

text \<open>
  A trace gives each input with the time that passes before it, counted from the end
  of the handling of the previous one.
\<close>

fun run :: "(nat \<Rightarrow> bool \<times> nat) \<Rightarrow> (nat \<times> input) list \<Rightarrow> state \<Rightarrow> state" where
  "run user [] s = s"
| "run user ((d, i) # tr) s = run user tr (handle_input i (advance user (now s + d) s))"

definition idle_timers :: "state \<Rightarrow> timer list" where
  "idle_timers s = filter (\<lambda>t. cb t = ShowTimeoutWarning) (timers s)"

section \<open>Invariant of the timer table, and the reading of the specification\<close>

text \<open>
  Timer ids are never reused, and the pending warning timers are those that
  \<open>timeoutWarning\<close> refers to.
\<close>

definition guard_inv :: "state \<Rightarrow> bool" where
  "guard_inv s \<longleftrightarrow>
     distinct (map tid (timers s)) \<and>
     (\<forall>t \<in> set (timers s). tid t < next_id s) \<and>
     (\<forall>i. timeoutWarning s = Some i \<longrightarrow> i < next_id s) \<and>
     (\<forall>t \<in> set (timers s). cb t = ShowTimeoutWarning \<longleftrightarrow> timeoutWarning s = Some (tid t))"

text \<open>
  The specification speaks of a path that falls under the admin prefix. This is that
  reading, to be compared with the test the script makes.
\<close>

definition under_admin_prefix :: "string \<Rightarrow> bool" where
  "under_admin_prefix path = prefix ''/admin/'' path"

text \<open>What holds between two activity events of a user who never goes idle.\<close>

definition attended :: "state \<Rightarrow> bool" where
  "attended s \<longleftrightarrow>
     guard_inv s \<and> confirms s = 0 \<and> fetches s = [] \<and>
     (\<forall>x \<in> set (idle_timers s). now s + idle_threshold \<le> due x) \<and>
     (doc_listeners s = activity_events \<or> doc_listeners s = [] \<and> idle_timers s = [])"

text \<open>
  What a page load fixes for good: the submit listeners, which form each button
  belongs to, and how markup reads back. \<open>locked\<close> is a button as the lock listener leaves it.
\<close>

definition page_inv :: "page \<Rightarrow> state \<Rightarrow> bool" where
  "page_inv p s \<longleftrightarrow>
     submit_listeners s = validation_listeners (page_forms p) @ lock_listeners (page_buttons p) \<and>
     map closest_form (buttons s) = map closest_form (page_buttons p) \<and>
     readback s = page_readback p"

definition locked :: "(string \<Rightarrow> string) \<Rightarrow> button \<Rightarrow> button" where
  "locked h bt = bt\<lparr>disabled := True, innerHTML := h busy_label\<rparr>"

text \<open>A pending timer that will release button \<open>b\<close>.\<close>

definition releases :: "nat \<Rightarrow> timer \<Rightarrow> bool" where
  "releases b t = (case cb t of AutoRelease b' orig \<Rightarrow> b' = b | _ \<Rightarrow> False)"

section \<open>Properties of the event loop\<close>

lemma earliest_None: "earliest ts = None \<longleftrightarrow> ts = []"
  by (induction ts) (auto split: option.splits)

lemma next_due_None: "next_due T s = None \<longleftrightarrow> (\<forall>t \<in> set (timers s). T < due t)"
  by (auto simp: next_due_def earliest_None filter_empty_conv not_le)

lemma advance_rule:
  "P s \<Longrightarrow>
   (\<And>s t. P s \<Longrightarrow> t \<in> set (timers s) \<Longrightarrow> due t \<le> T \<Longrightarrow> P (fire user t s)) \<Longrightarrow>
   (\<And>s. P s \<Longrightarrow> (\<forall>t \<in> set (timers s). T < due t) \<Longrightarrow> Q (s\<lparr>now := max (now s) T\<rparr>)) \<Longrightarrow>
   Q (advance user T s)"
proof (induction user T s rule: advance.induct)
  case (1 user T s)
  note step = "1.prems"(2) and final = "1.prems"(3)
  show ?case
  proof (cases "next_due T s")
    case None
    then have "\<forall>t \<in> set (timers s). T < due t"
      by (simp add: next_due_None)
    then have "Q (s\<lparr>now := max (now s) T\<rparr>)"
      by (rule final [OF "1.prems"(1)])
    then show ?thesis
      using None by (subst advance.simps) simp
  next
    case (Some t)
    then have "t \<in> set (timers s)" and "due t \<le> T"
      using next_due_mem by blast+
    then have "P (fire user t s)"
      by (rule step [OF "1.prems"(1)])
    then have "Q (advance user T (fire user t s))"
      using step final by (rule "1.IH" [OF Some])
    then show ?thesis
      using Some by (subst advance.simps) simp
  qed
qed

lemma resetTimer_eq:
  "resetTimer s =
     s\<lparr>timers := filter (\<lambda>t. Some (tid t) \<noteq> timeoutWarning s) (timers s)
                   @ [\<lparr>tid = next_id s, due = now s + idle_threshold, cb = ShowTimeoutWarning\<rparr>],
       next_id := next_id s + 1,
       timeoutWarning := Some (next_id s)\<rparr>"
  by (cases "timeoutWarning s") (simp_all add: resetTimer_def clearTimeout_def setTimeout_def Let_def)

lemma showTimeoutWarning_eq:
  "showTimeoutWarning a s =
     (if fst a
      then s\<lparr>timers := filter (\<lambda>t. Some (tid t) \<noteq> timeoutWarning s) (timers s)
                   @ [\<lparr>tid = next_id s, due = now s + snd a + idle_threshold, cb = ShowTimeoutWarning\<rparr>],
             next_id := next_id s + 1,
             timeoutWarning := Some (next_id s),
             confirms := confirms s + 1,
             now := now s + snd a,
             fetches := fetches s @ [\<lparr>url = ''/admin/keep-alive'', http_method = ''POST''\<rparr>]\<rparr>
      else s\<lparr>confirms := confirms s + 1, now := now s + snd a\<rparr>)"
  by (simp add: showTimeoutWarning_def confirm_def fetch_def resetTimer_eq)

lemma lock_listener_eq:
  "lock_listener b s =
     (if b < length (buttons s)
      then s\<lparr>buttons := (buttons s)[b := (buttons s ! b)\<lparr>disabled := True,
                                                       innerHTML := readback s busy_label\<rparr>],
             timers := timers s @ [\<lparr>tid = next_id s, due = now s + safety_window,
                                    cb = AutoRelease b (innerHTML (buttons s ! b))\<rparr>],
             next_id := next_id s + 1\<rparr>
      else s)"
  by (simp add: lock_listener_def setTimeout_def Let_def)

lemma guard_inv_resetTimer: "guard_inv s \<Longrightarrow> guard_inv (resetTimer s)"
  by (auto simp: guard_inv_def resetTimer_eq less_Suc_eq distinct_map_filter)

lemma guard_inv_showTimeoutWarning: "guard_inv s \<Longrightarrow> guard_inv (showTimeoutWarning a s)"
  by (auto simp: guard_inv_def showTimeoutWarning_eq less_Suc_eq distinct_map_filter)

lemma guard_inv_auto_release: "guard_inv s \<Longrightarrow> guard_inv (auto_release b orig s)"
  by (simp add: guard_inv_def auto_release_def)

lemma guard_inv_lock_listener: "guard_inv s \<Longrightarrow> guard_inv (lock_listener b s)"
  by (auto simp: guard_inv_def lock_listener_eq less_Suc_eq)

lemma guard_inv_remove:
  "guard_inv s \<Longrightarrow> guard_inv (s\<lparr>timers := filter (\<lambda>x. tid x \<noteq> i) (timers s), now := n\<rparr>)"
  by (auto simp: guard_inv_def distinct_map_filter)

lemma guard_inv_fire: "guard_inv s \<Longrightarrow> guard_inv (fire user t s)"
  unfolding fire_def
  by (cases "cb t")
     (simp_all add: guard_inv_remove guard_inv_showTimeoutWarning guard_inv_auto_release)

lemma guard_inv_now: "guard_inv (s\<lparr>now := n\<rparr>) = guard_inv s"
  by (simp add: guard_inv_def)

lemma guard_inv_advance: "guard_inv s \<Longrightarrow> guard_inv (advance user T s)"
  by (rule advance_rule [where P = guard_inv]) (simp_all add: guard_inv_fire guard_inv_now)

lemma guard_inv_run_listener:
  assumes "guard_inv (snd ps)"
  shows "guard_inv (snd (run_listener f valid l ps))"
proof (cases l)
  case Validate
  then show ?thesis
    using assms by (cases ps) (auto simp: validate_listener_def guard_inv_def)
next
  case (Lock b)
  then show ?thesis
    using assms by (cases ps) (simp add: guard_inv_lock_listener)
qed

lemma guard_inv_fold_listeners:
  "guard_inv (snd ps) \<Longrightarrow> guard_inv (snd (fold (run_listener f valid) ls ps))"
  by (induction ls arbitrary: ps) (simp_all add: guard_inv_run_listener)

lemma guard_inv_dispatch_submit: "guard_inv s \<Longrightarrow> guard_inv (dispatch_submit f valid s)"
proof -
  assume "guard_inv s"
  then have "guard_inv (snd (submit_handlers f valid s))"
    unfolding submit_handlers_def by (intro guard_inv_fold_listeners) simp
  then show ?thesis
    by (auto simp: dispatch_submit_def guard_inv_def split: prod.splits)
qed

lemma guard_inv_handle_input: "guard_inv s \<Longrightarrow> guard_inv (handle_input i s)"
  by (cases i) (simp_all add: dispatch_document_def guard_inv_resetTimer guard_inv_dispatch_submit)

lemma guard_inv_run: "guard_inv s \<Longrightarrow> guard_inv (run user tr s)"
  by (induction tr arbitrary: s) (auto simp: guard_inv_handle_input guard_inv_advance)

lemma guard_inv_DOMContentLoaded: "guard_inv (DOMContentLoaded p t0)"
  by (simp add: DOMContentLoaded_def install_guard_def setTimeout_def resetTimer_eq guard_inv_def
      Let_def)

lemma idle_timers_resetTimer:
  "guard_inv s \<Longrightarrow>
   idle_timers (resetTimer s) =
     [\<lparr>tid = next_id s, due = now s + idle_threshold, cb = ShowTimeoutWarning\<rparr>]"
  by (auto simp: idle_timers_def resetTimer_eq guard_inv_def filter_empty_conv)

section \<open>The session guard\<close>

lemma str_includes_iff: "str_includes s pat \<longleftrightarrow> (\<exists>pre suf. s = pre @ pat @ suf)"
proof (induction s)
  case Nil
  then show ?case by auto
next
  case (Cons c cs)
  show ?case
  proof
    assume "str_includes (c # cs) pat"
    then consider "prefix pat (c # cs)" | "str_includes cs pat" by auto
    then show "\<exists>pre suf. c # cs = pre @ pat @ suf"
    proof cases
      case 1
      then obtain suf where "c # cs = pat @ suf" by (auto simp: prefix_def)
      then have "c # cs = [] @ pat @ suf" by simp
      then show ?thesis by blast
    next
      case 2
      then obtain pre suf where "cs = pre @ pat @ suf" using Cons.IH by blast
      then have "c # cs = (c # pre) @ pat @ suf" by simp
      then show ?thesis by blast
    qed
  next
    assume "\<exists>pre suf. c # cs = pre @ pat @ suf"
    then obtain pre suf where eq: "c # cs = pre @ pat @ suf" by blast
    show "str_includes (c # cs) pat"
    proof (cases pre)
      case Nil
      then have "prefix pat (c # cs)" using eq by (simp add: prefix_def)
      then show ?thesis by simp
    next
      case (Cons a pre')
      then have "cs = pre' @ pat @ suf" using eq by simp
      then have "str_includes cs pat" using Cons.IH by blast
      then show ?thesis by simp
    qed
  qed
qed

subsection \<open>Dismissing the warning\<close>

text \<open>
  Claim C9. When the warning prompt is dismissed the handler does nothing more: the
  state is the one before, apart from the prompt having been shown and the time it
  stayed open. No request is sent and no timer is set.
\<close>

theorem dismiss_changes_nothing:
  "showTimeoutWarning (False, d) s = s\<lparr>confirms := confirms s + 1, now := now s + d\<rparr> \<and>
   fetches (showTimeoutWarning (False, d) s) = fetches s \<and>
   timers (showTimeoutWarning (False, d) s) = timers s \<and>
   timeoutWarning (showTimeoutWarning (False, d) s) = timeoutWarning s"
  by (simp add: showTimeoutWarning_eq)

subsection \<open>Where the guard is installed\<close>

lemma DOMContentLoaded_eq:
  "DOMContentLoaded p t0 =
     (if str_includes (pathname p) ''/admin/''
      then \<lparr>now = t0, next_id = 3,
             timers = [\<lparr>tid = 1, due = t0 + 5000, cb = DismissAlerts\<rparr>,
                       \<lparr>tid = 2, due = t0 + idle_threshold, cb = ShowTimeoutWarning\<rparr>],
             timeoutWarning = Some 2,
             doc_listeners = activity_events,
             submit_listeners = validation_listeners (page_forms p) @ lock_listeners (page_buttons p),
             forms = page_forms p, buttons = page_buttons p,
             confirms = 0, fetches = [], submissions = [], readback = page_readback p\<rparr>
      else \<lparr>now = t0, next_id = 2,
             timers = [\<lparr>tid = 1, due = t0 + 5000, cb = DismissAlerts\<rparr>],
             timeoutWarning = None,
             doc_listeners = [],
             submit_listeners = validation_listeners (page_forms p) @ lock_listeners (page_buttons p),
             forms = page_forms p, buttons = page_buttons p,
             confirms = 0, fetches = [], submissions = [], readback = page_readback p\<rparr>)"
  by (simp add: DOMContentLoaded_def install_guard_def setTimeout_def resetTimer_eq Let_def)

text \<open>The equations that evaluate a run on a concrete page and trace.\<close>

lemmas eval_defs = DOMContentLoaded_eq dispatch_submit_def submit_handlers_def
  validation_listeners_def lock_listeners_def validate_listener_def lock_listener_eq
  auto_release_def classList_add_def dispatch_document_def resetTimer_eq showTimeoutWarning_eq
  advance.simps next_due_def fire_def safety_window_def idle_threshold_def activity_events_def
  idle_timers_def upt_rec

text \<open>
  Claim C2, as amended. The activity listeners and the idle timer are installed exactly
  when \<^verbatim>\<open>/admin/\<close> occurs somewhere in the path of the page; every path that
  starts with it is among these.
\<close>

theorem guard_installed_iff_includes:
  "doc_listeners (DOMContentLoaded p t0) =
     (if str_includes (pathname p) ''/admin/'' then activity_events else []) \<and>
   idle_timers (DOMContentLoaded p t0) =
     (if str_includes (pathname p) ''/admin/''
      then [\<lparr>tid = 2, due = t0 + idle_threshold, cb = ShowTimeoutWarning\<rparr>] else []) \<and>
   (str_includes (pathname p) ''/admin/'' \<longleftrightarrow>
      (\<exists>pre suf. pathname p = pre @ ''/admin/'' @ suf)) \<and>
   (under_admin_prefix (pathname p) \<longrightarrow> str_includes (pathname p) ''/admin/'')"
proof -
  have "under_admin_prefix (pathname p) \<longrightarrow> str_includes (pathname p) ''/admin/''"
    unfolding under_admin_prefix_def str_includes_iff prefix_def
    by (metis append_Nil)
  then show ?thesis
    using str_includes_iff [of "pathname p" "''/admin/''"]
    by (simp add: DOMContentLoaded_eq idle_timers_def)
qed

theorem guard_installed_iff_includes_witness:
  "doc_listeners (DOMContentLoaded \<lparr>pathname = ''/admin/dashboard'', page_forms = [], page_buttons = [],
        page_readback = (\<lambda>v. v)\<rparr> 0)
     = [''click'', ''mousemove'', ''keypress'', ''scroll''] \<and>
   idle_timers (DOMContentLoaded \<lparr>pathname = ''/admin/dashboard'', page_forms = [], page_buttons = [],
        page_readback = (\<lambda>v. v)\<rparr> 0)
     = [\<lparr>tid = 2, due = 1500000, cb = ShowTimeoutWarning\<rparr>] \<and>
   under_admin_prefix ''/admin/dashboard'' \<and>
   str_includes ''/admin/dashboard'' ''/admin/''"
  using guard_installed_iff_includes
    [of "\<lparr>pathname = ''/admin/dashboard'', page_forms = [], page_buttons = [],
        page_readback = (\<lambda>v. v)\<rparr>" 0]
  by (simp add: under_admin_prefix_def activity_events_def idle_threshold_def)

text \<open>
  The claim as stated fails: the path \<^verbatim>\<open>/portal/admin/users\<close> does not start with
  \<^verbatim>\<open>/admin/\<close>, and the guard is installed on it.
\<close>

theorem guard_outside_prefix_counterexample:
  "doc_listeners (DOMContentLoaded \<lparr>pathname = ''/portal/admin/users'', page_forms = [], page_buttons = [],
        page_readback = (\<lambda>v. v)\<rparr> 0)
     = [''click'', ''mousemove'', ''keypress'', ''scroll''] \<and>
   idle_timers (DOMContentLoaded \<lparr>pathname = ''/portal/admin/users'', page_forms = [], page_buttons = [],
        page_readback = (\<lambda>v. v)\<rparr> 0)
     = [\<lparr>tid = 2, due = 1500000, cb = ShowTimeoutWarning\<rparr>] \<and>
   \<not> under_admin_prefix ''/portal/admin/users''"
  by (simp add: DOMContentLoaded_eq idle_timers_def under_admin_prefix_def activity_events_def
      idle_threshold_def)

subsection \<open>Time without a prompt\<close>

lemma tid_inj:
  "distinct (map tid ts) \<Longrightarrow> t \<in> set ts \<Longrightarrow> x \<in> set ts \<Longrightarrow> tid t = tid x \<Longrightarrow> t = x"
  by (auto simp: distinct_map dest: inj_onD)

lemma fire_other:
  assumes "cb t \<noteq> ShowTimeoutWarning"
  shows "timers (fire user t s) = filter (\<lambda>x. tid x \<noteq> tid t) (timers s)"
    and "confirms (fire user t s) = confirms s"
    and "fetches (fire user t s) = fetches s"
    and "doc_listeners (fire user t s) = doc_listeners s"
    and "now (fire user t s) = max (now s) (due t)"
  using assms by (cases "cb t"; simp add: fire_def auto_release_def)+

lemma idle_timers_fire_other:
  assumes "cb t \<noteq> ShowTimeoutWarning"
  shows "idle_timers (fire user t s) = filter (\<lambda>x. tid x \<noteq> tid t) (idle_timers s)"
  using fire_other(1) [OF assms, of user s]
  by (simp add: idle_timers_def) (metis filter_filter conj_commute)

lemma idle_mem: "x \<in> set (idle_timers s) \<longleftrightarrow> x \<in> set (timers s) \<and> cb x = ShowTimeoutWarning"
  by (auto simp: idle_timers_def)

text \<open>While no warning timer is due, time passes without a prompt.\<close>

lemma advance_quiet:
  assumes "guard_inv s" and "\<forall>x \<in> set (idle_timers s). T < due x"
  shows "confirms (advance user T s) = confirms s \<and>
         fetches (advance user T s) = fetches s \<and>
         doc_listeners (advance user T s) = doc_listeners s \<and>
         guard_inv (advance user T s) \<and>
         set (idle_timers (advance user T s)) \<subseteq> set (idle_timers s) \<and>
         now s \<le> now (advance user T s)"
proof -
  let ?P = "\<lambda>s'. confirms s' = confirms s \<and> fetches s' = fetches s \<and>
      doc_listeners s' = doc_listeners s \<and> guard_inv s' \<and>
      set (idle_timers s') \<subseteq> set (idle_timers s) \<and> now s \<le> now s'"
  show ?thesis
  proof (rule advance_rule [where P = ?P and Q = ?P])
    show "?P s" using assms(1) by simp
  next
    fix s' t
    assume P: "?P s'" and t: "t \<in> set (timers s')" "due t \<le> T"
    have "t \<notin> set (idle_timers s')"
      using P assms(2) t(2) by (auto simp: not_less [symmetric])
    then have other: "cb t \<noteq> ShowTimeoutWarning" using t(1) by (simp add: idle_mem)
    show "?P (fire user t s')"
      using P by (auto simp: guard_inv_fire fire_other [OF other] idle_timers_fire_other [OF other])
  next
    fix s'
    assume "?P s'"
    then show "?P (s'\<lparr>now := max (now s') T\<rparr>)"
      by (auto simp: guard_inv_now idle_timers_def)
  qed
qed

subsection \<open>Resetting, and a user who stays active\<close>

lemma guard_inv_reachable: "guard_inv (run user tr (DOMContentLoaded p t0))"
  by (simp add: guard_inv_run guard_inv_DOMContentLoaded)

lemma reset_twice:
  assumes "guard_inv s"
  shows "idle_timers (resetTimer (resetTimer s)) =
           [\<lparr>tid = next_id s + 1, due = now s + idle_threshold, cb = ShowTimeoutWarning\<rparr>]"
proof -
  have "guard_inv (resetTimer s)" using assms by (rule guard_inv_resetTimer)
  then have "idle_timers (resetTimer (resetTimer s)) =
      [\<lparr>tid = next_id (resetTimer s), due = now (resetTimer s) + idle_threshold,
        cb = ShowTimeoutWarning\<rparr>]"
    by (rule idle_timers_resetTimer)
  then show ?thesis by (simp add: resetTimer_eq)
qed

text \<open>
  Claim C3. In every state the page can reach, resetting the timer twice in a row
  leaves exactly one pending warning timer: the one the second reset set.
\<close>

theorem reset_twice_one_timer:
  "idle_timers (resetTimer (resetTimer (run user tr (DOMContentLoaded p t0)))) =
     [\<lparr>tid = next_id (run user tr (DOMContentLoaded p t0)) + 1,
       due = now (run user tr (DOMContentLoaded p t0)) + idle_threshold,
       cb = ShowTimeoutWarning\<rparr>] \<and>
   length (idle_timers (resetTimer (resetTimer (run user tr (DOMContentLoaded p t0))))) = 1"
  using reset_twice [OF guard_inv_reachable, of user tr p t0] by simp

theorem reset_twice_one_timer_witness:
  "length (idle_timers (resetTimer (resetTimer
     (run (\<lambda>n. (True, 0)) [(1000, DocumentEvent ''click'')]
        (DOMContentLoaded \<lparr>pathname = ''/admin/users'', page_forms = [], page_buttons = [],
        page_readback = (\<lambda>v. v)\<rparr> 0))))) = 1"
  using reset_twice_one_timer
    [of "\<lambda>n. (True, 0)" "[(1000, DocumentEvent ''click'')]"
        "\<lparr>pathname = ''/admin/users'', page_forms = [], page_buttons = [],
        page_readback = (\<lambda>v. v)\<rparr>" 0]
  by simp

lemma idle_timers_DOMContentLoaded:
  "idle_timers (DOMContentLoaded p t0) =
     (if str_includes (pathname p) ''/admin/''
      then [\<lparr>tid = 2, due = t0 + idle_threshold, cb = ShowTimeoutWarning\<rparr>] else [])"
  by (simp add: DOMContentLoaded_eq idle_timers_def)

lemma attended_DOMContentLoaded: "attended (DOMContentLoaded p t0)"
proof -
  have "confirms (DOMContentLoaded p t0) = 0" "fetches (DOMContentLoaded p t0) = []"
    "now (DOMContentLoaded p t0) = t0"
    by (simp_all add: DOMContentLoaded_eq)
  moreover have "\<forall>x \<in> set (idle_timers (DOMContentLoaded p t0)). t0 + idle_threshold \<le> due x"
    by (simp add: idle_timers_DOMContentLoaded)
  moreover have "doc_listeners (DOMContentLoaded p t0) = activity_events \<or>
      doc_listeners (DOMContentLoaded p t0) = [] \<and> idle_timers (DOMContentLoaded p t0) = []"
    by (simp add: idle_timers_DOMContentLoaded) (simp add: DOMContentLoaded_eq)
  ultimately show ?thesis
    using guard_inv_DOMContentLoaded [of p t0] by (simp add: attended_def)
qed

lemma attended_step:
  assumes "attended s" and "d < idle_threshold" and "ev \<in> set activity_events"
  shows "attended (handle_input (DocumentEvent ev) (advance user (now s + d) s))"
proof -
  let ?s1 = "advance user (now s + d) s"
  have inv: "guard_inv s" using assms(1) by (simp add: attended_def)
  have "\<forall>x \<in> set (idle_timers s). now s + d < due x"
    using assms(1,2) by (fastforce simp: attended_def)
  then have q: "confirms ?s1 = confirms s \<and> fetches ?s1 = fetches s \<and>
      doc_listeners ?s1 = doc_listeners s \<and> guard_inv ?s1 \<and>
      set (idle_timers ?s1) \<subseteq> set (idle_timers s) \<and> now s \<le> now ?s1"
    by (rule advance_quiet [OF inv])
  consider "doc_listeners s = activity_events" | "doc_listeners s = []" "idle_timers s = []"
    using assms(1) by (auto simp: attended_def)
  then show ?thesis
  proof cases
    case 1
    then have "handle_input (DocumentEvent ev) ?s1 = resetTimer ?s1"
      using q assms(3) by (simp add: dispatch_document_def)
    moreover have "idle_timers (resetTimer ?s1) =
        [\<lparr>tid = next_id ?s1, due = now ?s1 + idle_threshold, cb = ShowTimeoutWarning\<rparr>]"
      using q by (simp add: idle_timers_resetTimer)
    moreover have "guard_inv (resetTimer ?s1)" using q by (simp add: guard_inv_resetTimer)
    ultimately show ?thesis
      using q 1 assms(1) by (simp add: attended_def) (simp add: resetTimer_eq)
  next
    case 2
    then have "handle_input (DocumentEvent ev) ?s1 = ?s1"
      using q by (simp add: dispatch_document_def)
    moreover have "idle_timers ?s1 = []" using q 2 by simp
    ultimately show ?thesis
      using q 2 assms(1) by (simp add: attended_def)
  qed
qed

lemma attended_run:
  assumes "attended s"
    and "\<forall>(d, i) \<in> set tr. d < idle_threshold \<and> (\<exists>ev \<in> set activity_events. i = DocumentEvent ev)"
  shows "attended (run user tr s)"
  using assms
proof (induction tr arbitrary: s)
  case Nil
  then show ?case by simp
next
  case (Cons a tr)
  obtain d i where a: "a = (d, i)" by (cases a)
  then obtain ev where ev: "d < idle_threshold" "ev \<in> set activity_events" "i = DocumentEvent ev"
    using Cons.prems(2) by auto
  have "attended (handle_input i (advance user (now s + d) s))"
    unfolding ev(3) using Cons.prems(1) ev(1,2) by (rule attended_step)
  moreover have "\<forall>(d, i) \<in> set tr. d < idle_threshold \<and> (\<exists>ev \<in> set activity_events. i = DocumentEvent ev)"
    using Cons.prems(2) by simp
  ultimately show ?case
    using Cons.IH a by simp
qed

text \<open>
  Claim C8. After the page has loaded, let click, mousemove, keypress and scroll events
  arrive, each less than the idle threshold after the one before (the first less than
  the threshold after the load). Then no prompt is ever shown and no keep-alive request
  is sent, on any page and whatever the user would have answered.
\<close>

theorem active_user_never_warned:
  assumes "\<forall>(d, i) \<in> set tr. d < idle_threshold \<and> (\<exists>ev \<in> set activity_events. i = DocumentEvent ev)"
  shows "confirms (run user tr (DOMContentLoaded p t0)) = 0 \<and>
         fetches (run user tr (DOMContentLoaded p t0)) = []"
  using attended_run [OF attended_DOMContentLoaded assms] by (simp add: attended_def)

theorem active_user_never_warned_witness:
  "(60000::nat) < idle_threshold \<and> (1499999::nat) < idle_threshold \<and>
   ''click'' \<in> set activity_events \<and> ''scroll'' \<in> set activity_events \<and>
   confirms (run (\<lambda>n. (True, 0))
      [(60000, DocumentEvent ''click''), (1499999, DocumentEvent ''scroll'')]
      (DOMContentLoaded \<lparr>pathname = ''/admin/users'', page_forms = [], page_buttons = [],
        page_readback = (\<lambda>v. v)\<rparr> 0)) = 0"
  using active_user_never_warned
    [of "[(60000, DocumentEvent ''click''), (1499999, DocumentEvent ''scroll'')]"
        "\<lambda>n. (True, 0)"
        "\<lparr>pathname = ''/admin/users'', page_forms = [], page_buttons = [],
        page_readback = (\<lambda>v. v)\<rparr>" 0]
  by (simp add: idle_threshold_def activity_events_def)

text \<open>The bound is sharp: an event a full threshold after the one before comes after the prompt.\<close>

lemma late_event_is_warned:
  "confirms (run (\<lambda>n. (True, 0))
      [(60000, DocumentEvent ''click''), (1500000, DocumentEvent ''scroll'')]
      (DOMContentLoaded \<lparr>pathname = ''/admin/users'', page_forms = [], page_buttons = [],
        page_readback = (\<lambda>v. v)\<rparr> 0)) = 1"
  by (simp add: eval_defs)

subsection \<open>The warning fires once\<close>

lemma idle_timers_remove_only:
  assumes "idle_timers s = [x]"
  shows "\<forall>y \<in> set (timers s). tid y \<noteq> tid x \<longrightarrow> cb y \<noteq> ShowTimeoutWarning"
proof (intro ballI impI notI)
  fix y assume "y \<in> set (timers s)" "tid y \<noteq> tid x" "cb y = ShowTimeoutWarning"
  then have "y \<in> set (idle_timers s)" by (simp add: idle_mem)
  then have "y = x" using assms by simp
  then show False using \<open>tid y \<noteq> tid x\<close> by simp
qed

lemma timers_fire_warning:
  assumes "cb x = ShowTimeoutWarning"
  shows "timers (fire user x s) =
    (if fst (user (confirms s))
     then filter (\<lambda>t. Some (tid t) \<noteq> timeoutWarning s) (filter (\<lambda>y. tid y \<noteq> tid x) (timers s))
          @ [\<lparr>tid = next_id s, due = max (now s) (due x) + snd (user (confirms s)) + idle_threshold,
              cb = ShowTimeoutWarning\<rparr>]
     else filter (\<lambda>y. tid y \<noteq> tid x) (timers s))"
  using assms by (simp add: fire_def showTimeoutWarning_eq)

lemma confirms_fire_warning:
  "cb x = ShowTimeoutWarning \<Longrightarrow> confirms (fire user x s) = confirms s + 1"
  by (simp add: fire_def showTimeoutWarning_eq)

lemma idle_timers_fire_warning:
  assumes "idle_timers s = [x]"
  shows "idle_timers (fire user x s) =
      (if fst (user (confirms s))
       then [\<lparr>tid = next_id s, due = max (now s) (due x) + snd (user (confirms s)) + idle_threshold,
              cb = ShowTimeoutWarning\<rparr>]
       else [])"
proof -
  have x: "cb x = ShowTimeoutWarning"
    using assms idle_mem [of x s] by simp
  show ?thesis
    using idle_timers_remove_only [OF assms]
    by (auto simp: timers_fire_warning [OF x] idle_timers_def filter_empty_conv)
qed

lemma idle_timers_fire_warning_later:
  assumes "idle_timers s = [x]" and "y \<in> set (idle_timers (fire user x s))"
  shows "due x + idle_threshold \<le> due y"
proof (cases "fst (user (confirms s))")
  case True
  then have "idle_timers (fire user x s) = [\<lparr>tid = next_id s, due = max (now s) (due x) + snd (user (confirms s)) + idle_threshold,
              cb = ShowTimeoutWarning\<rparr>]"
    by (simp add: idle_timers_fire_warning [OF assms(1)])
  then have "due y = max (now s) (due x) + snd (user (confirms s)) + idle_threshold"
    using assms(2) by simp
  then show ?thesis by simp
next
  case False
  then have "idle_timers (fire user x s) = []"
    by (simp add: idle_timers_fire_warning [OF assms(1)])
  then show ?thesis using assms(2) by simp
qed

text \<open>
  One warning timer pending, due at or before \<open>T\<close>, and \<open>T\<close> less than a threshold past
  that: between now and \<open>T\<close> the prompt is shown once.
\<close>

lemma advance_one_warning:
  assumes inv: "guard_inv s" and one: "idle_timers s = [x]"
    and T: "due x \<le> T" "T < due x + idle_threshold"
  shows "confirms (advance user T s) = confirms s + 1"
proof -
  let ?P = "\<lambda>s'. guard_inv s' \<and>
      (confirms s' = confirms s \<and> idle_timers s' = [x] \<or>
       confirms s' = confirms s + 1 \<and> (\<forall>y \<in> set (idle_timers s'). T < due y))"
  let ?Q = "\<lambda>s'. confirms s' = confirms s + 1"
  show ?thesis
  proof (rule advance_rule [where P = ?P and Q = ?Q])
    show "?P s" using inv one by simp
  next
    fix s' t
    assume P: "?P s'" and t: "t \<in> set (timers s')" "due t \<le> T"
    have inv': "guard_inv s'" using P by simp
    have ginv: "guard_inv (fire user t s')" using inv' by (rule guard_inv_fire)
    from P consider
        (before) "confirms s' = confirms s" "idle_timers s' = [x]"
      | (after) "confirms s' = confirms s + 1" "\<forall>y \<in> set (idle_timers s'). T < due y"
      by auto
    then show "?P (fire user t s')"
    proof cases
      case before
      show ?thesis
      proof (cases "cb t = ShowTimeoutWarning")
        case True
        then have "t \<in> set (idle_timers s')" using t(1) by (simp add: idle_mem)
        then have tx: "t = x" using before(2) by simp
        have "confirms (fire user x s') = confirms s' + 1"
          using True tx by (simp add: confirms_fire_warning)
        moreover have "\<forall>y \<in> set (idle_timers (fire user x s')). T < due y"
          using idle_timers_fire_warning_later [OF before(2)] T(2) by fastforce
        ultimately show ?thesis using ginv tx before(1) by simp
      next
        case False
        have "x \<in> set (timers s')" using before(2) idle_mem [of x s'] by simp
        moreover have "t \<noteq> x" using False before(2) idle_mem [of x s'] by auto
        ultimately have "tid x \<noteq> tid t"
          using inv' t(1) tid_inj [of "timers s'" t x] by (auto simp: guard_inv_def)
        then have "idle_timers (fire user t s') = [x]"
          using before(2) by (simp add: idle_timers_fire_other [OF False])
        then show ?thesis using ginv before(1) by (simp add: fire_other [OF False])
      qed
    next
      case after
      have "t \<notin> set (idle_timers s')" using after(2) t(2) by (auto simp: not_less [symmetric])
      then have other: "cb t \<noteq> ShowTimeoutWarning" using t(1) by (simp add: idle_mem)
      show ?thesis
        using ginv after by (auto simp: fire_other [OF other] idle_timers_fire_other [OF other])
    qed
  next
    fix s'
    assume P: "?P s'" and fin: "\<forall>t \<in> set (timers s'). T < due t"
    have "idle_timers s' \<noteq> [x]"
    proof
      assume "idle_timers s' = [x]"
      then have "x \<in> set (timers s')" using idle_mem [of x s'] by simp
      then show False using fin T(1) by auto
    qed
    then show "?Q (s'\<lparr>now := max (now s') T\<rparr>)" using P by auto
  qed
qed

lemma all_same_distinct:
  assumes "distinct xs" and "\<forall>y \<in> set xs. y = t" and "t \<in> set xs"
  shows "xs = [t]"
proof (cases xs)
  case Nil
  then show ?thesis using assms(3) by simp
next
  case (Cons a rest)
  then have "a = t" using assms(2) by simp
  moreover have "rest = []"
  proof (cases rest)
    case Nil
    then show ?thesis .
  next
    case (Cons c rest')
    then have "c = t" using assms(2) \<open>xs = a # rest\<close> by simp
    then show ?thesis using assms(1) \<open>xs = a # rest\<close> \<open>a = t\<close> Cons by simp
  qed
  ultimately show ?thesis using Cons by simp
qed

text \<open>At most one warning timer is ever pending.\<close>

lemma idle_timers_unique:
  assumes "guard_inv s" and "x \<in> set (idle_timers s)"
  shows "idle_timers s = [x]"
proof (rule all_same_distinct)
  have "distinct (timers s)"
    using assms(1) by (simp add: guard_inv_def distinct_map)
  then show "distinct (idle_timers s)" by (simp add: idle_timers_def)
  show "\<forall>y \<in> set (idle_timers s). y = x"
  proof
    fix y assume "y \<in> set (idle_timers s)"
    then have "y \<in> set (timers s)" "x \<in> set (timers s)" "tid y = tid x"
      using assms by (auto simp: idle_mem guard_inv_def)
    then show "y = x"
      using assms(1) tid_inj [of "timers s" y x] by (simp add: guard_inv_def)
  qed
  show "x \<in> set (idle_timers s)" by (rule assms(2))
qed

text \<open>
  Claim C4. Take any state the page can reach in which the guard has just been armed:
  a warning timer is pending, due one idle threshold from now. Let time pass without
  an activity event. Up to any instant before the threshold no prompt is shown; up to
  any instant from the threshold on, and less than two thresholds away, exactly one
  prompt is shown, whatever the user answers and however long the prompt stays open.
\<close>

theorem idle_warning_fires_once:
  assumes "s = run user tr (DOMContentLoaded p t0)"
    and "x \<in> set (idle_timers s)"
    and "due x = now s + idle_threshold"
  shows "(T < now s + idle_threshold \<longrightarrow> confirms (advance user T s) = confirms s) \<and>
         (now s + idle_threshold \<le> T \<and> T < now s + 2 * idle_threshold \<longrightarrow>
            confirms (advance user T s) = confirms s + 1)"
proof -
  have inv: "guard_inv s" unfolding assms(1) by (rule guard_inv_reachable)
  then have one: "idle_timers s = [x]" using assms(2) by (rule idle_timers_unique)
  have early: "confirms (advance user T s) = confirms s" if "T < now s + idle_threshold"
  proof -
    have "\<forall>y \<in> set (idle_timers s). T < due y"
      using that one assms(3) by simp
    then show ?thesis using advance_quiet [OF inv, of T user] by simp
  qed
  have once: "confirms (advance user T s) = confirms s + 1"
    if "now s + idle_threshold \<le> T" "T < now s + 2 * idle_threshold"
  proof -
    have "due x \<le> T" "T < due x + idle_threshold" using that assms(3) by simp_all
    then show ?thesis using advance_one_warning [OF inv one] by simp
  qed
  show ?thesis using early once by blast
qed

theorem idle_warning_fires_once_witness:
  "confirms (advance (\<lambda>n. (True, 2000)) 1499999
      (run (\<lambda>n. (True, 2000)) []
         (DOMContentLoaded \<lparr>pathname = ''/admin/users'', page_forms = [], page_buttons = [],
        page_readback = (\<lambda>v. v)\<rparr> 0))) = 0 \<and>
   confirms (advance (\<lambda>n. (True, 2000)) 1500000
      (run (\<lambda>n. (True, 2000)) []
         (DOMContentLoaded \<lparr>pathname = ''/admin/users'', page_forms = [], page_buttons = [],
        page_readback = (\<lambda>v. v)\<rparr> 0))) = 1"
proof -
  let ?u = "\<lambda>n::nat. (True, 2000::nat)"
  let ?p = "\<lparr>pathname = ''/admin/users'', page_forms = [], page_buttons = [],
        page_readback = (\<lambda>v. v)\<rparr>"
  let ?s = "run ?u [] (DOMContentLoaded ?p 0)"
  let ?x = "\<lparr>tid = 2, due = 1500000, cb = ShowTimeoutWarning\<rparr>"
  have s: "?x \<in> set (idle_timers ?s)" "now ?s = 0" "confirms ?s = 0"
    by (simp_all add: DOMContentLoaded_eq idle_timers_def idle_threshold_def)
  show ?thesis
    using s idle_warning_fires_once [of ?s ?u "[]" ?p 0 ?x 1499999]
      idle_warning_fires_once [of ?s ?u "[]" ?p 0 ?x 1500000]
    by (simp add: idle_threshold_def)
qed

subsection \<open>Confirming the warning\<close>

text \<open>
  Claim C1. When the warning prompt is confirmed, in whatever state the handler runs and
  however long the prompt stayed open, the handler has set a fresh idle timer, due one
  idle threshold after the confirmation, has stored its id, has cancelled the timer it
  referred to before, and has issued exactly one request: a POST to
  \<^verbatim>\<open>/admin/keep-alive\<close>. The timer is set before the request is issued and nothing in
  the handler reads the request's outcome. In every state the page can reach, when the
  pending warning timer fires and the user confirms, that fresh timer is the only
  warning timer pending afterwards.
\<close>

theorem confirm_rearms_and_keeps_alive:
  "fetches (showTimeoutWarning (True, d) s) =
     fetches s @ [\<lparr>url = ''/admin/keep-alive'', http_method = ''POST''\<rparr>] \<and>
   timers (showTimeoutWarning (True, d) s) =
     filter (\<lambda>t. Some (tid t) \<noteq> timeoutWarning s) (timers s)
       @ [\<lparr>tid = next_id s, due = now s + d + idle_threshold, cb = ShowTimeoutWarning\<rparr>] \<and>
   timeoutWarning (showTimeoutWarning (True, d) s) = Some (next_id s) \<and>
   confirms (showTimeoutWarning (True, d) s) = confirms s + 1 \<and>
   (r = run user tr (DOMContentLoaded p t0) \<and> t \<in> set (idle_timers r) \<and>
    user (confirms r) = (True, d) \<longrightarrow>
      idle_timers (fire user t r) =
        [\<lparr>tid = next_id r, due = max (now r) (due t) + d + idle_threshold,
          cb = ShowTimeoutWarning\<rparr>] \<and>
      fetches (fire user t r) =
        fetches r @ [\<lparr>url = ''/admin/keep-alive'', http_method = ''POST''\<rparr>])"
proof -
  have "idle_timers (fire user t r) =
        [\<lparr>tid = next_id r, due = max (now r) (due t) + d + idle_threshold,
          cb = ShowTimeoutWarning\<rparr>] \<and>
      fetches (fire user t r) =
        fetches r @ [\<lparr>url = ''/admin/keep-alive'', http_method = ''POST''\<rparr>]"
    if r: "r = run user tr (DOMContentLoaded p t0)" and t: "t \<in> set (idle_timers r)"
      and u: "user (confirms r) = (True, d)"
  proof -
    have "guard_inv r" unfolding r by (rule guard_inv_reachable)
    then have one: "idle_timers r = [t]" using t by (rule idle_timers_unique)
    have "cb t = ShowTimeoutWarning" using t by (simp add: idle_mem)
    then have "fetches (fire user t r) =
        fetches r @ [\<lparr>url = ''/admin/keep-alive'', http_method = ''POST''\<rparr>]"
      using u by (simp add: fire_def showTimeoutWarning_eq)
    then show ?thesis using idle_timers_fire_warning [OF one, of user] u by simp
  qed
  moreover have "fetches (showTimeoutWarning (True, d) s) =
     fetches s @ [\<lparr>url = ''/admin/keep-alive'', http_method = ''POST''\<rparr>] \<and>
   timers (showTimeoutWarning (True, d) s) =
     filter (\<lambda>t. Some (tid t) \<noteq> timeoutWarning s) (timers s)
       @ [\<lparr>tid = next_id s, due = now s + d + idle_threshold, cb = ShowTimeoutWarning\<rparr>] \<and>
   timeoutWarning (showTimeoutWarning (True, d) s) = Some (next_id s) \<and>
   confirms (showTimeoutWarning (True, d) s) = confirms s + 1"
    by (simp add: showTimeoutWarning_eq)
  ultimately show ?thesis by blast
qed

theorem confirm_rearms_and_keeps_alive_witness:
  "idle_timers (fire (\<lambda>n. (True, 2000)) \<lparr>tid = 2, due = 1500000, cb = ShowTimeoutWarning\<rparr>
      (run (\<lambda>n. (True, 2000)) []
         (DOMContentLoaded \<lparr>pathname = ''/admin/users'', page_forms = [], page_buttons = [],
        page_readback = (\<lambda>v. v)\<rparr> 0))) =
     [\<lparr>tid = 3, due = 3002000, cb = ShowTimeoutWarning\<rparr>] \<and>
   fetches (fire (\<lambda>n. (True, 2000)) \<lparr>tid = 2, due = 1500000, cb = ShowTimeoutWarning\<rparr>
      (run (\<lambda>n. (True, 2000)) []
         (DOMContentLoaded \<lparr>pathname = ''/admin/users'', page_forms = [], page_buttons = [],
        page_readback = (\<lambda>v. v)\<rparr> 0))) =
     [\<lparr>url = ''/admin/keep-alive'', http_method = ''POST''\<rparr>]"
proof -
  let ?u = "\<lambda>n::nat. (True, 2000::nat)"
  let ?p = "\<lparr>pathname = ''/admin/users'', page_forms = [], page_buttons = [],
        page_readback = (\<lambda>v. v)\<rparr>"
  let ?r = "run ?u [] (DOMContentLoaded ?p 0)"
  let ?t = "\<lparr>tid = 2, due = 1500000, cb = ShowTimeoutWarning\<rparr>"
  have r: "?t \<in> set (idle_timers ?r)" "next_id ?r = 3" "now ?r = 0" "fetches ?r = []"
    by (simp_all add: DOMContentLoaded_eq idle_timers_def idle_threshold_def)
  show ?thesis
    using r confirm_rearms_and_keeps_alive [of 2000 _ ?r ?u "[]" ?p 0 ?t]
    by (simp add: idle_threshold_def)
qed

section \<open>The submit lock\<close>

subsection \<open>What a page load fixes\<close>

lemma map_closest_form_update [simp]:
  "map closest_form (bs[b := (bs ! b)\<lparr>disabled := d, innerHTML := h\<rparr>]) = map closest_form bs"
proof (cases "b < length bs")
  case True
  then show ?thesis by (simp add: map_update list_update_same_conv)
next
  case False
  then have "length bs \<le> b" by simp
  then show ?thesis by (simp only: list_update_beyond)
qed

lemma page_inv_resetTimer: "page_inv p (resetTimer s) = page_inv p s"
  by (simp add: page_inv_def resetTimer_eq)

lemma page_inv_lock_listener: "page_inv p (lock_listener b s) = page_inv p s"
  by (simp add: page_inv_def lock_listener_eq)

lemma page_inv_fire: "page_inv p (fire user t s) = page_inv p s"
  by (cases "cb t") (simp_all add: page_inv_def fire_def showTimeoutWarning_eq auto_release_def)

lemma page_inv_advance: "page_inv p s \<Longrightarrow> page_inv p (advance user T s)"
  by (rule advance_rule [where P = "page_inv p"]) (simp_all add: page_inv_fire, simp add: page_inv_def)

lemma page_inv_run_listener:
  "page_inv p (snd (run_listener f valid l ps)) = page_inv p (snd ps)"
  by (cases l; cases ps) (simp_all add: validate_listener_def page_inv_lock_listener, simp add: page_inv_def)

lemma page_inv_fold_listeners:
  "page_inv p (snd (fold (run_listener f valid) ls ps)) = page_inv p (snd ps)"
  by (induction ls arbitrary: ps) (simp_all add: page_inv_run_listener)

lemma page_inv_dispatch_submit: "page_inv p (dispatch_submit f valid s) = page_inv p s"
proof -
  have "page_inv p (snd (submit_handlers f valid s)) = page_inv p s"
    unfolding submit_handlers_def by (simp add: page_inv_fold_listeners)
  then show ?thesis
    by (auto simp: dispatch_submit_def page_inv_def split: prod.splits)
qed

lemma page_inv_handle_input: "page_inv p (handle_input i s) = page_inv p s"
  by (cases i) (simp_all add: dispatch_document_def page_inv_resetTimer page_inv_dispatch_submit)

lemma page_inv_run: "page_inv p s \<Longrightarrow> page_inv p (run user tr s)"
  by (induction tr arbitrary: s) (auto simp: page_inv_handle_input page_inv_advance)

lemma page_inv_reachable: "page_inv p (run user tr (DOMContentLoaded p t0))"
  by (rule page_inv_run) (simp add: page_inv_def DOMContentLoaded_eq)

lemma readback_reachable: "readback (run user tr (DOMContentLoaded p t0)) = page_readback p"
  using page_inv_reachable [of p user tr t0] by (simp add: page_inv_def)

subsection \<open>What the listeners of a submit event do\<close>

lemma locked_idem [simp]: "locked h (locked h bt) = locked h bt"
  by (simp add: locked_def)

lemma fold_listeners_buttons:
  "length (buttons (snd (fold (run_listener f valid) ls (pr, s)))) = length (buttons s) \<and>
   readback (snd (fold (run_listener f valid) ls (pr, s))) = readback s \<and>
   buttons (snd (fold (run_listener f valid) ls (pr, s))) ! b =
     (if Lock b \<in> set ls \<and> b < length (buttons s) then locked (readback s) (buttons s ! b)
      else buttons s ! b)"
proof (induction ls arbitrary: pr s)
  case Nil
  then show ?case by simp
next
  case (Cons l ls)
  show ?case
  proof (cases l)
    case Validate
    then show ?thesis
      using Cons.IH [of "pr \<or> \<not> valid" "snd (validate_listener f valid s)"]
      by (simp add: validate_listener_def)
  next
    case (Lock b')
    have len: "length (buttons (lock_listener b' s)) = length (buttons s)"
      by (simp add: lock_listener_eq)
    have rb: "readback (lock_listener b' s) = readback s"
      by (simp add: lock_listener_eq)
    have nth: "buttons (lock_listener b' s) ! b =
        (if b = b' \<and> b < length (buttons s) then locked (readback s) (buttons s ! b)
         else buttons s ! b)"
      by (auto simp: lock_listener_eq locked_def)
    show ?thesis
      using Cons.IH [of pr "lock_listener b' s"] Lock len rb nth by auto
  qed
qed

lemma submit_handlers_locks:
  "Lock b \<in> set (map snd (filter (\<lambda>r. fst r = f) (validation_listeners fs @ lock_listeners bs))) \<longleftrightarrow>
     b < length bs \<and> closest_form (bs ! b) = Some f"
  by (auto simp: validation_listeners_def lock_listeners_def image_iff split: option.splits)

lemma submit_handlers_buttons:
  assumes "page_inv p s"
  shows "length (buttons (snd (submit_handlers f valid s))) = length (buttons s)"
    and "buttons (snd (submit_handlers f valid s)) ! b =
      (if b < length (page_buttons p) \<and> closest_form (page_buttons p ! b) = Some f
       then locked (readback s) (buttons s ! b) else buttons s ! b)"
    and "readback (snd (submit_handlers f valid s)) = readback s"
proof -
  define ls where "ls = map snd (filter (\<lambda>r. fst r = f) (submit_listeners s))"
  have len: "length (buttons s) = length (page_buttons p)"
    using assms by (auto simp: page_inv_def dest: map_eq_imp_length_eq)
  have mem: "Lock b \<in> set ls \<longleftrightarrow> b < length (page_buttons p) \<and> closest_form (page_buttons p ! b) = Some f"
    using assms unfolding ls_def page_inv_def by (simp only: submit_handlers_locks)
  have sh: "submit_handlers f valid s = fold (run_listener f valid) ls (False, s)"
    by (simp add: submit_handlers_def ls_def)
  note fb = fold_listeners_buttons [of f valid ls False s b]
  show "length (buttons (snd (submit_handlers f valid s))) = length (buttons s)"
    using fb sh by simp
  show "buttons (snd (submit_handlers f valid s)) ! b =
      (if b < length (page_buttons p) \<and> closest_form (page_buttons p ! b) = Some f
       then locked (readback s) (buttons s ! b) else buttons s ! b)"
    using fb sh mem len by auto
  show "readback (snd (submit_handlers f valid s)) = readback s"
    using fb sh by simp
qed

lemma fold_listeners_submissions:
  "submissions (snd (fold (run_listener f valid) ls ps)) = submissions (snd ps)"
proof (induction ls arbitrary: ps)
  case Nil
  then show ?case by simp
next
  case (Cons l ls)
  have "submissions (snd (run_listener f valid l ps)) = submissions (snd ps)"
    by (cases l; cases ps) (simp_all add: validate_listener_def lock_listener_eq)
  then show ?case using Cons.IH by simp
qed

lemma submissions_submit_handlers:
  "submissions (snd (submit_handlers f valid s)) = submissions s"
  by (simp add: submit_handlers_def fold_listeners_submissions)

text \<open>
  Claim C5, as amended. In every state the page can reach, the listeners of a submit
  event on a form lock every submit button whose closest form it is, whether or not the
  form carries the \<^verbatim>\<open>needs-validation\<close> class, and leave the other buttons as they
  were. They start no submission: the browser starts it after they have returned, in
  the state they left, and only if none of them prevented it.
\<close>

theorem submit_locks_buttons_of_any_form:
  assumes "s = run user tr (DOMContentLoaded p t0)"
    and "s' = snd (submit_handlers f valid s)"
    and "b < length (page_buttons p)"
  shows "(closest_form (page_buttons p ! b) = Some f \<longrightarrow>
            disabled (buttons s' ! b) \<and>
            innerHTML (buttons s' ! b) = page_readback p busy_label) \<and>
         (closest_form (page_buttons p ! b) \<noteq> Some f \<longrightarrow> buttons s' ! b = buttons s ! b) \<and>
         submissions s' = submissions s \<and>
         dispatch_submit f valid s =
           (if fst (submit_handlers f valid s) then s'
            else s'\<lparr>submissions := submissions s' @ [f]\<rparr>)"
proof -
  have inv: "page_inv p s" unfolding assms(1) by (rule page_inv_reachable)
  have rb: "readback s = page_readback p" unfolding assms(1) by (rule readback_reachable)
  have nth: "buttons s' ! b =
      (if closest_form (page_buttons p ! b) = Some f then locked (page_readback p) (buttons s ! b)
       else buttons s ! b)"
    unfolding assms(2) using submit_handlers_buttons(2) [OF inv, of f valid b] assms(3) rb by simp
  have "dispatch_submit f valid s =
           (if fst (submit_handlers f valid s) then s'
            else s'\<lparr>submissions := submissions s' @ [f]\<rparr>)"
    unfolding assms(2) by (simp add: dispatch_submit_def split: prod.splits)
  then show ?thesis
    using nth by (simp add: assms(2) submissions_submit_handlers locked_def)
qed

theorem submit_locks_buttons_of_any_form_witness:
  "buttons (snd (submit_handlers 0 True (run (\<lambda>n. (False, 0)) []
      (DOMContentLoaded \<lparr>pathname = ''/contact'',
         page_forms = [\<lparr>classList = [''contact-form'']\<rparr>, \<lparr>classList = [''needs-validation'']\<rparr>],
         page_buttons = [\<lparr>closest_form = Some 0, disabled = False, innerHTML = ''Send''\<rparr>,
                         \<lparr>closest_form = Some 1, disabled = False, innerHTML = ''Save''\<rparr>],
          page_readback = (\<lambda>v. v)\<rparr> 0)))) =
     [\<lparr>closest_form = Some 0, disabled = True, innerHTML = busy_label\<rparr>,
      \<lparr>closest_form = Some 1, disabled = False, innerHTML = ''Save''\<rparr>]"
proof -
  let ?p = "\<lparr>pathname = ''/contact'',
         page_forms = [\<lparr>classList = [''contact-form'']\<rparr>, \<lparr>classList = [''needs-validation'']\<rparr>],
         page_buttons = [\<lparr>closest_form = Some 0, disabled = False, innerHTML = ''Send''\<rparr>,
                         \<lparr>closest_form = Some 1, disabled = False, innerHTML = ''Save''\<rparr>],
          page_readback = (\<lambda>v. v)\<rparr>"
  let ?s = "run (\<lambda>n. (False, 0)) [] (DOMContentLoaded ?p 0)"
  let ?s' = "snd (submit_handlers 0 True ?s)"
  have len: "length (buttons ?s') = 2"
    by (simp add: eval_defs)
  have b0: "disabled (buttons ?s' ! 0) \<and> innerHTML (buttons ?s' ! 0) = busy_label"
    using submit_locks_buttons_of_any_form [of ?s "\<lambda>n. (False, 0)" "[]" ?p 0 ?s' 0 True 0] by simp
  have b1: "buttons ?s' ! 1 = buttons ?s ! 1"
    using submit_locks_buttons_of_any_form [of ?s "\<lambda>n. (False, 0)" "[]" ?p 0 ?s' 0 True 1] by simp
  have cf: "map closest_form (buttons ?s') = [Some 0, Some 1]"
    by (simp add: eval_defs)
  show ?thesis
    using len b0 b1 cf
    by (simp add: eval_defs)
qed

text \<open>
  The claim as stated fails: a form without the \<^verbatim>\<open>needs-validation\<close> class has its
  submit button locked all the same.
\<close>

theorem unmarked_form_is_locked_counterexample:
  "''needs-validation'' \<notin> set (classList (page_forms
      \<lparr>pathname = ''/contact'', page_forms = [\<lparr>classList = [''contact-form'']\<rparr>],
        page_buttons = [\<lparr>closest_form = Some 0, disabled = False, innerHTML = ''Send''\<rparr>],
          page_readback = (\<lambda>v. v)\<rparr> ! 0)) \<and>
   buttons (dispatch_submit 0 True (DOMContentLoaded
      \<lparr>pathname = ''/contact'', page_forms = [\<lparr>classList = [''contact-form'']\<rparr>],
        page_buttons = [\<lparr>closest_form = Some 0, disabled = False, innerHTML = ''Send''\<rparr>],
          page_readback = (\<lambda>v. v)\<rparr> 0)) =
     [\<lparr>closest_form = Some 0, disabled = True, innerHTML = busy_label\<rparr>] \<and>
   submissions (dispatch_submit 0 True (DOMContentLoaded
      \<lparr>pathname = ''/contact'', page_forms = [\<lparr>classList = [''contact-form'']\<rparr>],
        page_buttons = [\<lparr>closest_form = Some 0, disabled = False, innerHTML = ''Send''\<rparr>],
          page_readback = (\<lambda>v. v)\<rparr> 0)) = [0]"
  by (simp add: eval_defs)

subsection \<open>Submitting again while the button is locked\<close>

text \<open>
  Claim C7 does not hold of the script, however the browser reads markup back. A second
  submit event while the button is locked takes the busy markup, as it reads back, as
  its snapshot (first part). With a third one after the first release, the second timer
  finds the button locked again and writes that snapshot into the enabled button; no
  timer is left to put ``Save'' back (second part). The busy markup reads back
  unchanged in a browser, so the label that stays is the busy markup itself.
\<close>

theorem resubmit_loses_label:
  "timers (run (\<lambda>n. (False, 0))
      [(0, SubmitEvent 0 False), (3000, SubmitEvent 0 False)]
      (DOMContentLoaded
        \<lparr>pathname = ''/verify'', page_forms = [\<lparr>classList = [''needs-validation'']\<rparr>],
          page_buttons = [\<lparr>closest_form = Some 0, disabled = False, innerHTML = ''Save''\<rparr>],
          page_readback = h\<rparr> 0)) =
     [\<lparr>tid = 1, due = 5000, cb = DismissAlerts\<rparr>,
      \<lparr>tid = 2, due = 5000, cb = AutoRelease 0 ''Save''\<rparr>,
      \<lparr>tid = 3, due = 8000, cb = AutoRelease 0 (h busy_label)\<rparr>] \<and>
   run (\<lambda>n. (False, 0))
      [(0, SubmitEvent 0 False), (3000, SubmitEvent 0 False), (3000, SubmitEvent 0 False),
       (10000, DocumentEvent ''keydown'')]
      (DOMContentLoaded
        \<lparr>pathname = ''/verify'', page_forms = [\<lparr>classList = [''needs-validation'']\<rparr>],
          page_buttons = [\<lparr>closest_form = Some 0, disabled = False, innerHTML = ''Save''\<rparr>],
          page_readback = h\<rparr> 0) =
     \<lparr>now = 16000, next_id = 5, timers = [], timeoutWarning = None, doc_listeners = [],
       submit_listeners = [(0, Validate), (0, Lock 0)],
       forms = [\<lparr>classList = [''needs-validation'', ''was-validated'']\<rparr>],
       buttons = [\<lparr>closest_form = Some 0, disabled = False, innerHTML = h (h busy_label)\<rparr>],
       confirms = 0, fetches = [], submissions = [], readback = h\<rparr>"
  by (simp add: eval_defs)

subsection \<open>A submit event that validation prevents\<close>

lemma releases_simps [simp]:
  "releases b \<lparr>tid = i, due = d, cb = AutoRelease b' orig\<rparr> \<longleftrightarrow> b' = b"
  "\<not> releases b \<lparr>tid = i, due = d, cb = ShowTimeoutWarning\<rparr>"
  "\<not> releases b \<lparr>tid = i, due = d, cb = DismissAlerts\<rparr>"
  by (simp_all add: releases_def)

lemma releases_not_warning: "releases b t \<Longrightarrow> cb t \<noteq> ShowTimeoutWarning"
  by (auto simp: releases_def)

text \<open>The listeners registered on one form, in order.\<close>

lemma lock_listeners_of_form:
  "map snd (filter (\<lambda>r. fst r = f)
     (concat (map (\<lambda>b. case closest_form (bs ! b) of None \<Rightarrow> [] | Some f' \<Rightarrow> [(f', Lock b)]) js))) =
   map Lock (filter (\<lambda>b. closest_form (bs ! b) = Some f) js)"
  by (induction js) (auto split: option.splits)

lemma validation_listener_present:
  "f < length fs \<Longrightarrow> ''needs-validation'' \<in> set (classList (fs ! f)) \<Longrightarrow>
   Validate \<in> set (map snd (filter (\<lambda>r. fst r = f) (validation_listeners fs)))"
  by (force simp: validation_listeners_def image_iff)

lemma form_listeners_lock_once:
  "distinct (filter (\<lambda>l. l = Lock b)
     (map snd (filter (\<lambda>r. fst r = f) (validation_listeners fs @ lock_listeners bs))))"
proof -
  have "filter (\<lambda>l. l = Lock b) (map snd (filter (\<lambda>r. fst r = f) (validation_listeners fs))) = []"
    by (auto simp: filter_empty_conv validation_listeners_def)
  moreover have "distinct (map snd (filter (\<lambda>r. fst r = f) (lock_listeners bs)))"
    unfolding lock_listeners_def lock_listeners_of_form by (simp add: distinct_map inj_on_def)
  ultimately show ?thesis by simp
qed

lemma fold_listeners_prevented:
  "fst (fold (run_listener f valid) ls (pr, s)) \<longleftrightarrow> pr \<or> Validate \<in> set ls \<and> \<not> valid"
proof (induction ls arbitrary: pr s)
  case Nil
  then show ?case by simp
next
  case (Cons l ls)
  then show ?case by (cases l) (auto simp: validate_listener_def)
qed

text \<open>The release timers for one button that the listeners of a submit event add.\<close>

lemma run_listener_other:
  assumes "l \<noteq> Lock b"
  shows "filter (releases b) (timers (snd (run_listener f valid l (pr, s)))) =
           filter (releases b) (timers s) \<and>
         buttons (snd (run_listener f valid l (pr, s))) ! b = buttons s ! b \<and>
         length (buttons (snd (run_listener f valid l (pr, s)))) = length (buttons s) \<and>
         now (snd (run_listener f valid l (pr, s))) = now s"
  using assms by (cases l) (auto simp: validate_listener_def lock_listener_eq)

lemma fold_listeners_no_release:
  "Lock b \<notin> set ls \<Longrightarrow>
   filter (releases b) (timers (snd (fold (run_listener f valid) ls (pr, s)))) =
     filter (releases b) (timers s)"
proof (induction ls arbitrary: pr s)
  case Nil
  then show ?case by simp
next
  case (Cons l ls)
  obtain pr' s' where r: "run_listener f valid l (pr, s) = (pr', s')"
    by (cases "run_listener f valid l (pr, s)")
  have "l \<noteq> Lock b" using Cons.prems by auto
  then have "filter (releases b) (timers s') = filter (releases b) (timers s)"
    using run_listener_other [of l b f valid pr s] r by simp
  then show ?case using Cons r by simp
qed

lemma fold_listeners_release:
  assumes "Lock b \<in> set ls" and "distinct (filter (\<lambda>l. l = Lock b) ls)"
    and "b < length (buttons s)"
  shows "\<exists>x. filter (releases b) (timers (snd (fold (run_listener f valid) ls (pr, s)))) =
                filter (releases b) (timers s) @ [x] \<and>
              cb x = AutoRelease b (innerHTML (buttons s ! b)) \<and>
              due x = now s + safety_window"
  using assms
proof (induction ls arbitrary: pr s)
  case Nil
  then show ?case by simp
next
  case (Cons l ls)
  show ?case
  proof (cases "l = Lock b")
    case True
    then have rest: "Lock b \<notin> set ls" using Cons.prems(2) by (simp add: filter_empty_conv)
    let ?x = "\<lparr>tid = next_id s, due = now s + safety_window,
               cb = AutoRelease b (innerHTML (buttons s ! b))\<rparr>"
    have "filter (releases b) (timers (lock_listener b s)) = filter (releases b) (timers s) @ [?x]"
      using Cons.prems(3) by (simp add: lock_listener_eq)
    then have "filter (releases b) (timers (snd (fold (run_listener f valid) (l # ls) (pr, s)))) =
        filter (releases b) (timers s) @ [?x]"
      using True fold_listeners_no_release [OF rest, of f valid pr "lock_listener b s"] by simp
    then show ?thesis by (intro exI [of _ ?x]) simp
  next
    case False
    obtain pr' s' where r: "run_listener f valid l (pr, s) = (pr', s')"
      by (cases "run_listener f valid l (pr, s)")
    have same: "filter (releases b) (timers s') = filter (releases b) (timers s)"
      "buttons s' ! b = buttons s ! b" "length (buttons s') = length (buttons s)" "now s' = now s"
      using run_listener_other [OF False, of f valid pr s] r by simp_all
    have "Lock b \<in> set ls" "distinct (filter (\<lambda>l. l = Lock b) ls)" "b < length (buttons s')"
      using Cons.prems False same by auto
    from Cons.IH [OF this] show ?thesis
      using r same by simp
  qed
qed

lemma buttons_fire:
  "buttons (fire user t s) =
     (case cb t of AutoRelease b orig \<Rightarrow> buttons (auto_release b orig s) | _ \<Rightarrow> buttons s)"
  by (cases "cb t") (simp_all add: fire_def showTimeoutWarning_eq auto_release_def)

lemma length_buttons_fire [simp]: "length (buttons (fire user t s)) = length (buttons s)"
  by (cases "cb t") (simp_all add: buttons_fire auto_release_def)

lemma buttons_fire_other:
  "\<not> releases b t \<Longrightarrow> buttons (fire user t s) ! b = buttons s ! b"
  by (cases "cb t") (auto simp: buttons_fire auto_release_def releases_def)

lemma readback_fire [simp]: "readback (fire user t s) = readback s"
  by (cases "cb t") (simp_all add: fire_def showTimeoutWarning_eq auto_release_def)

lemma buttons_fire_release:
  assumes "cb x = AutoRelease b orig" and "b < length (buttons s)"
  shows "buttons (fire user x s) ! b =
           (if disabled (buttons s ! b)
            then (buttons s ! b)\<lparr>disabled := False, innerHTML := readback s orig\<rparr>
            else buttons s ! b)"
  using assms by (simp add: buttons_fire auto_release_def)

lemma fire_never_disables:
  assumes "b < length (buttons s)" and "\<not> disabled (buttons s ! b)"
  shows "\<not> disabled (buttons (fire user t s) ! b)"
proof (cases "cb t")
  case (AutoRelease b' orig)
  then show ?thesis
    using assms by (cases "b' = b") (auto simp: buttons_fire auto_release_def)
qed (use assms in \<open>simp_all add: buttons_fire\<close>)

lemma timers_fire_keeps:
  assumes "guard_inv s" and "x \<in> set (timers s)" and "tid x \<noteq> tid t" and "cb x \<noteq> ShowTimeoutWarning"
  shows "x \<in> set (timers (fire user t s))"
proof (cases "cb t = ShowTimeoutWarning")
  case True
  have "Some (tid x) \<noteq> timeoutWarning s"
    using assms(1,2,4) by (auto simp: guard_inv_def)
  then show ?thesis
    using assms(2,3) by (simp add: timers_fire_warning [OF True])
next
  case False
  then show ?thesis using assms(2,3) by (simp add: fire_other(1) [OF False])
qed

lemma releases_fire:
  assumes "guard_inv s"
  shows "filter (releases b) (timers (fire user t s)) =
           filter (\<lambda>y. tid y \<noteq> tid t) (filter (releases b) (timers s))"
proof (cases "cb t = ShowTimeoutWarning")
  case True
  have keep: "filter (releases b) (filter (\<lambda>t. Some (tid t) \<noteq> timeoutWarning s) ts) =
      filter (releases b) ts" if "set ts \<subseteq> set (timers s)" for ts
  proof -
    have "\<forall>y \<in> set ts. releases b y \<longrightarrow> Some (tid y) \<noteq> timeoutWarning s"
      using assms that by (auto simp: guard_inv_def dest: releases_not_warning)
    then show ?thesis by (induction ts) auto
  qed
  have "filter (releases b) (timers (fire user t s)) =
      filter (releases b) (filter (\<lambda>y. tid y \<noteq> tid t) (timers s))"
    using keep [of "filter (\<lambda>y. tid y \<noteq> tid t) (timers s)"]
    by (simp add: timers_fire_warning [OF True])
  then show ?thesis by (simp add: conj_commute)
next
  case False
  then show ?thesis by (simp add: fire_other(1) [OF False] conj_commute)
qed

text \<open>Once a release timer for a button has come due, the button is enabled.\<close>

lemma advance_enabled_after:
  assumes inv: "guard_inv s" and x: "x \<in> set (timers s)" "cb x = AutoRelease b orig" "due x \<le> T"
    and b: "b < length (buttons s)"
  shows "\<not> disabled (buttons (advance user T s) ! b)"
proof -
  let ?P = "\<lambda>s'. guard_inv s' \<and> length (buttons s') = length (buttons s) \<and>
      (x \<in> set (timers s') \<or> \<not> disabled (buttons s' ! b))"
  let ?Q = "\<lambda>s'. \<not> disabled (buttons s' ! b)"
  show ?thesis
  proof (rule advance_rule [where P = ?P and Q = ?Q])
    show "?P s" using inv x(1) by simp
  next
    fix s' t
    assume P: "?P s'" and t: "t \<in> set (timers s')" "due t \<le> T"
    have inv': "guard_inv s'" and b': "b < length (buttons s')" using P b by simp_all
    have "x \<in> set (timers (fire user t s')) \<or> \<not> disabled (buttons (fire user t s') ! b)"
    proof (cases "\<not> disabled (buttons s' ! b)")
      case True
      then show ?thesis using fire_never_disables [OF b'] by simp
    next
      case False
      then have xin: "x \<in> set (timers s')" using P by auto
      show ?thesis
      proof (cases "tid x = tid t")
        case True
        then have "t = x" using inv' t(1) xin tid_inj [of "timers s'" t x] by (simp add: guard_inv_def)
        then show ?thesis using buttons_fire_release [OF x(2) b', of user] by simp
      next
        case False
        then show ?thesis using timers_fire_keeps [OF inv' xin False] x(2) by simp
      qed
    qed
    then show "?P (fire user t s')" using P guard_inv_fire [OF inv'] by simp
  next
    fix s'
    assume P: "?P s'" and fin: "\<forall>t \<in> set (timers s'). T < due t"
    have "x \<notin> set (timers s')" using fin x(3) by auto
    then show "?Q (s'\<lparr>now := max (now s') T\<rparr>)" using P by simp
  qed
qed

lemma filter_single_mem:
  assumes "filter P xs = [x]"
  shows "x \<in> set xs"
proof -
  have "x \<in> set (filter P xs)" by (simp add: assms)
  then show ?thesis by simp
qed

text \<open>
  A disabled button with a single release timer pending stays as it is until that timer
  is due.
\<close>

lemma advance_still_locked:
  assumes inv: "guard_inv s" and one: "filter (releases b) (timers s) = [x]" and T: "T < due x"
  shows "buttons (advance user T s) ! b = buttons s ! b"
proof -
  let ?P = "\<lambda>s'. guard_inv s' \<and> filter (releases b) (timers s') = [x] \<and>
      buttons s' ! b = buttons s ! b"
  let ?Q = "\<lambda>s'. buttons s' ! b = buttons s ! b"
  show ?thesis
  proof (rule advance_rule [where P = ?P and Q = ?Q])
    show "?P s" using inv one by simp
  next
    fix s' t
    assume P: "?P s'" and t: "t \<in> set (timers s')" "due t \<le> T"
    have inv': "guard_inv s'" using P by simp
    have "t \<noteq> x" using t(2) T by auto
    moreover have xin: "x \<in> set (timers s')"
      using P by (auto dest: filter_single_mem)
    ultimately have ne: "tid x \<noteq> tid t"
      using inv' t(1) tid_inj [of "timers s'" t x] by (auto simp: guard_inv_def)
    have "t \<notin> set (filter (releases b) (timers s'))" using P \<open>t \<noteq> x\<close> by simp
    then have nr: "\<not> releases b t" using t(1) by simp
    show "?P (fire user t s')"
      using P ne guard_inv_fire [OF inv'] by (simp add: releases_fire [OF inv'] buttons_fire_other [OF nr])
  next
    fix s'
    assume "?P s'"
    then show "?Q (s'\<lparr>now := max (now s') T\<rparr>)" by simp
  qed
qed

text \<open>Once that timer is due, the button is enabled and has the timer's label.\<close>

lemma advance_released:
  assumes inv: "guard_inv s" and one: "filter (releases b) (timers s) = [x]"
    and x: "cb x = AutoRelease b orig" and T: "due x \<le> T"
    and b: "b < length (buttons s)" "disabled (buttons s ! b)"
  shows "buttons (advance user T s) ! b =
           (buttons s ! b)\<lparr>disabled := False, innerHTML := readback s orig\<rparr>"
proof -
  let ?B = "(buttons s ! b)\<lparr>disabled := False, innerHTML := readback s orig\<rparr>"
  let ?P = "\<lambda>s'. guard_inv s' \<and> length (buttons s') = length (buttons s) \<and>
      readback s' = readback s \<and>
      (filter (releases b) (timers s') = [x] \<and> buttons s' ! b = buttons s ! b \<or>
       filter (releases b) (timers s') = [] \<and> buttons s' ! b = ?B)"
  let ?Q = "\<lambda>s'. buttons s' ! b = ?B"
  show ?thesis
  proof (rule advance_rule [where P = ?P and Q = ?Q])
    show "?P s" using inv one by simp
  next
    fix s' t
    assume P: "?P s'" and t: "t \<in> set (timers s')" "due t \<le> T"
    have inv': "guard_inv s'" and b': "b < length (buttons s')" using P b(1) by simp_all
    have rb: "readback s' = readback s" using P by simp
    from P consider
        (pending) "filter (releases b) (timers s') = [x]" "buttons s' ! b = buttons s ! b"
      | (released) "filter (releases b) (timers s') = []" "buttons s' ! b = ?B"
      by auto
    then have "filter (releases b) (timers (fire user t s')) = [x] \<and>
          buttons (fire user t s') ! b = buttons s ! b \<or>
        filter (releases b) (timers (fire user t s')) = [] \<and> buttons (fire user t s') ! b = ?B"
    proof cases
      case pending
      have xin: "x \<in> set (timers s')"
        using pending(1) by (rule filter_single_mem)
      show ?thesis
      proof (cases "tid x = tid t")
        case True
        then have "t = x"
          using inv' t(1) xin tid_inj [of "timers s'" t x] by (simp add: guard_inv_def)
        then show ?thesis
          using pending b(2) rb buttons_fire_release [OF x b', of user]
          by (simp add: releases_fire [OF inv'])
      next
        case False
        then have "t \<notin> set (filter (releases b) (timers s'))" using pending(1) by auto
        then have nr: "\<not> releases b t" using t(1) by simp
        show ?thesis
          using pending False by (simp add: releases_fire [OF inv'] buttons_fire_other [OF nr])
      qed
    next
      case released
      then have nr: "\<not> releases b t" using t(1) by (auto simp: filter_empty_conv)
      show ?thesis
        using released by (simp add: releases_fire [OF inv'] buttons_fire_other [OF nr])
    qed
    then show "?P (fire user t s')" using P guard_inv_fire [OF inv'] by simp
  next
    fix s'
    assume P: "?P s'" and fin: "\<forall>t \<in> set (timers s'). T < due t"
    have "filter (releases b) (timers s') \<noteq> [x]"
    proof
      assume "filter (releases b) (timers s') = [x]"
      then have "x \<in> set (timers s')" by (rule filter_single_mem)
      then show False using fin T by auto
    qed
    then show "?Q (s'\<lparr>now := max (now s') T\<rparr>)" using P by auto
  qed
qed

lemma dispatch_submit_invalid:
  assumes inv: "page_inv p s"
    and f: "f < length (page_forms p)" "''needs-validation'' \<in> set (classList (page_forms p ! f))"
  shows "dispatch_submit f False s = snd (submit_handlers f False s)"
proof -
  have "Validate \<in> set (map snd (filter (\<lambda>r. fst r = f) (submit_listeners s)))"
    using inv validation_listener_present [OF f] by (auto simp: page_inv_def)
  then have "fst (submit_handlers f False s)"
    unfolding submit_handlers_def by (simp only: fold_listeners_prevented) simp
  then show ?thesis by (cases "submit_handlers f False s") (simp add: dispatch_submit_def)
qed

lemma submit_handlers_release:
  assumes inv: "page_inv p s"
    and b: "b < length (page_buttons p)" "closest_form (page_buttons p ! b) = Some f"
  shows "\<exists>x. filter (releases b) (timers (snd (submit_handlers f valid s))) =
                filter (releases b) (timers s) @ [x] \<and>
              cb x = AutoRelease b (innerHTML (buttons s ! b)) \<and>
              due x = now s + safety_window"
proof -
  define ls where "ls = map snd (filter (\<lambda>r. fst r = f) (submit_listeners s))"
  have len: "length (buttons s) = length (page_buttons p)"
    using inv by (auto simp: page_inv_def dest: map_eq_imp_length_eq)
  have "Lock b \<in> set ls"
    using inv b unfolding ls_def page_inv_def by (simp only: submit_handlers_locks)
  moreover have "distinct (filter (\<lambda>l. l = Lock b) ls)"
    using inv unfolding ls_def page_inv_def by (simp only: form_listeners_lock_once)
  moreover have "b < length (buttons s)" using b(1) len by simp
  ultimately show ?thesis
    unfolding submit_handlers_def ls_def [symmetric] by (rule fold_listeners_release)
qed

text \<open>
  Claim C10, as amended. In every state the page can reach, let a submit event fire on
  a form that had the \<^verbatim>\<open>needs-validation\<close> class at load, with \<^verbatim>\<open>checkValidity\<close>
  answering false. No submission is started, and every submit button of the form is
  disabled and shows the busy markup. Once 5000 ms have passed the button is enabled
  again. If no earlier release timer for the button is pending at the event, the button
  stays disabled with the busy markup at every instant before that, and from then on
  shows the label it had before the event, as that markup reads back.
\<close>

theorem invalid_submit_still_locks:
  assumes "s = run user tr (DOMContentLoaded p t0)"
    and "f < length (page_forms p)"
    and "''needs-validation'' \<in> set (classList (page_forms p ! f))"
    and "b < length (page_buttons p)"
    and "closest_form (page_buttons p ! b) = Some f"
    and "s' = dispatch_submit f False s"
  shows "submissions s' = submissions s \<and>
         disabled (buttons s' ! b) \<and>
         innerHTML (buttons s' ! b) = page_readback p busy_label \<and>
         (now s + 5000 \<le> T \<longrightarrow> \<not> disabled (buttons (advance user T s') ! b)) \<and>
         ((\<forall>t \<in> set (timers s). \<not> releases b t) \<longrightarrow>
            (T < now s + 5000 \<longrightarrow>
               disabled (buttons (advance user T s') ! b) \<and>
               innerHTML (buttons (advance user T s') ! b) = page_readback p busy_label) \<and>
            (now s + 5000 \<le> T \<longrightarrow>
               innerHTML (buttons (advance user T s') ! b) =
                 page_readback p (innerHTML (buttons s ! b))))"
proof -
  have pinv: "page_inv p s" unfolding assms(1) by (rule page_inv_reachable)
  have ginv: "guard_inv s" unfolding assms(1) by (rule guard_inv_reachable)
  have rb: "readback s = page_readback p" unfolding assms(1) by (rule readback_reachable)
  have s': "s' = snd (submit_handlers f False s)"
    unfolding assms(6) using pinv assms(2,3) by (rule dispatch_submit_invalid)
  have ginv': "guard_inv s'" unfolding assms(6) using ginv by (rule guard_inv_dispatch_submit)
  have rb': "readback s' = page_readback p"
    unfolding s' using submit_handlers_buttons(3) [OF pinv] rb by simp
  have len: "length (buttons s) = length (page_buttons p)"
    using pinv by (auto simp: page_inv_def dest: map_eq_imp_length_eq)
  have b': "b < length (buttons s')"
    unfolding s' using submit_handlers_buttons(1) [OF pinv] len assms(4) by simp
  have lk: "buttons s' ! b = locked (page_readback p) (buttons s ! b)"
    unfolding s' using submit_handlers_buttons(2) [OF pinv, of f False b] assms(4,5) rb by simp
  obtain x where x: "filter (releases b) (timers s') = filter (releases b) (timers s) @ [x]"
      "cb x = AutoRelease b (innerHTML (buttons s ! b))" "due x = now s + 5000"
    unfolding s' using submit_handlers_release [OF pinv assms(4,5), of False]
    by (auto simp: safety_window_def)
  have xin: "x \<in> set (timers s')"
  proof -
    have "x \<in> set (filter (releases b) (timers s'))" by (simp add: x(1))
    then show ?thesis by simp
  qed
  have sub: "submissions s' = submissions s"
    unfolding s' by (rule submissions_submit_handlers)
  have after: "\<not> disabled (buttons (advance user T s') ! b)" if "now s + 5000 \<le> T"
    using advance_enabled_after [OF ginv' xin x(2) _ b'] that x(3) by simp
  have fresh: "disabled (buttons (advance user T s') ! b) \<and>
      innerHTML (buttons (advance user T s') ! b) = page_readback p busy_label"
    if "\<forall>t \<in> set (timers s). \<not> releases b t" "T < now s + 5000"
  proof -
    have one: "filter (releases b) (timers s') = [x]"
      using that(1) x(1) by (simp add: filter_empty_conv)
    have "buttons (advance user T s') ! b = buttons s' ! b"
      using advance_still_locked [OF ginv' one] that(2) x(3) by simp
    then show ?thesis using lk by (simp add: locked_def)
  qed
  have restored: "innerHTML (buttons (advance user T s') ! b) =
      page_readback p (innerHTML (buttons s ! b))"
    if "\<forall>t \<in> set (timers s). \<not> releases b t" "now s + 5000 \<le> T"
  proof -
    have one: "filter (releases b) (timers s') = [x]"
      using that(1) x(1) by (simp add: filter_empty_conv)
    have "disabled (buttons s' ! b)" using lk by (simp add: locked_def)
    then have "buttons (advance user T s') ! b =
        (buttons s' ! b)\<lparr>disabled := False,
                          innerHTML := readback s' (innerHTML (buttons s ! b))\<rparr>"
      using advance_released [OF ginv' one x(2) _ b'] that(2) x(3) by simp
    then show ?thesis by (simp add: rb')
  qed
  show ?thesis
    using sub lk after fresh restored by (simp add: locked_def)
qed

theorem invalid_submit_still_locks_witness:
  "submissions (dispatch_submit 0 False (run (\<lambda>n. (False, 0)) []
     (DOMContentLoaded
        \<lparr>pathname = ''/verify'', page_forms = [\<lparr>classList = [''needs-validation'']\<rparr>],
          page_buttons = [\<lparr>closest_form = Some 0, disabled = False, innerHTML = ''Save''\<rparr>],
          page_readback = (\<lambda>v. v)\<rparr> 0))) = [] \<and>
   disabled (buttons (advance (\<lambda>n. (False, 0)) 4999 (dispatch_submit 0 False (run (\<lambda>n. (False, 0)) []
     (DOMContentLoaded
        \<lparr>pathname = ''/verify'', page_forms = [\<lparr>classList = [''needs-validation'']\<rparr>],
          page_buttons = [\<lparr>closest_form = Some 0, disabled = False, innerHTML = ''Save''\<rparr>],
          page_readback = (\<lambda>v. v)\<rparr> 0)))) ! 0) \<and>
   innerHTML (buttons (advance (\<lambda>n. (False, 0)) 4999 (dispatch_submit 0 False (run (\<lambda>n. (False, 0)) []
     (DOMContentLoaded
        \<lparr>pathname = ''/verify'', page_forms = [\<lparr>classList = [''needs-validation'']\<rparr>],
          page_buttons = [\<lparr>closest_form = Some 0, disabled = False, innerHTML = ''Save''\<rparr>],
          page_readback = (\<lambda>v. v)\<rparr> 0)))) ! 0)
     = busy_label \<and>
   \<not> disabled (buttons (advance (\<lambda>n. (False, 0)) 5000 (dispatch_submit 0 False (run (\<lambda>n. (False, 0)) []
     (DOMContentLoaded
        \<lparr>pathname = ''/verify'', page_forms = [\<lparr>classList = [''needs-validation'']\<rparr>],
          page_buttons = [\<lparr>closest_form = Some 0, disabled = False, innerHTML = ''Save''\<rparr>],
          page_readback = (\<lambda>v. v)\<rparr> 0)))) ! 0) \<and>
   innerHTML (buttons (advance (\<lambda>n. (False, 0)) 5000 (dispatch_submit 0 False (run (\<lambda>n. (False, 0)) []
     (DOMContentLoaded
        \<lparr>pathname = ''/verify'', page_forms = [\<lparr>classList = [''needs-validation'']\<rparr>],
          page_buttons = [\<lparr>closest_form = Some 0, disabled = False, innerHTML = ''Save''\<rparr>],
          page_readback = (\<lambda>v. v)\<rparr> 0)))) ! 0)
     = ''Save''"
proof -
  let ?p = "\<lparr>pathname = ''/verify'', page_forms = [\<lparr>classList = [''needs-validation'']\<rparr>],
          page_buttons = [\<lparr>closest_form = Some 0, disabled = False, innerHTML = ''Save''\<rparr>],
          page_readback = (\<lambda>v. v)\<rparr>"
  let ?u = "\<lambda>n::nat. (False, 0::nat)"
  let ?s = "run ?u [] (DOMContentLoaded ?p 0)"
  have s: "now ?s = 0" "submissions ?s = []" "innerHTML (buttons ?s ! 0) = ''Save''"
    "\<forall>t \<in> set (timers ?s). \<not> releases 0 t"
    by (simp_all add: DOMContentLoaded_eq releases_def)
  show ?thesis
    using s
      invalid_submit_still_locks [of ?s ?u "[]" ?p 0 0 0 "dispatch_submit 0 False ?s" 4999]
      invalid_submit_still_locks [of ?s ?u "[]" ?p 0 0 0 "dispatch_submit 0 False ?s" 5000]
    by simp
qed

text \<open>
  The claim as stated fails. Submit events at 0 and 3000 ms, both prevented, lead to a
  state at 6000 ms in which the button is enabled and shows ``Save''. A third prevented
  submit event there locks it; 2000 ms later, not 5000, the timer of the second event
  enables it with the busy markup, and at 11000 ms and after it still shows the busy
  markup, with no timer left.
\<close>

theorem invalid_resubmit_released_early_counterexample:
  "buttons (run (\<lambda>n. (False, 0))
      [(0, SubmitEvent 0 False), (3000, SubmitEvent 0 False), (3000, DocumentEvent ''keydown'')]
      (DOMContentLoaded
        \<lparr>pathname = ''/verify'', page_forms = [\<lparr>classList = [''needs-validation'']\<rparr>],
          page_buttons = [\<lparr>closest_form = Some 0, disabled = False, innerHTML = ''Save''\<rparr>],
          page_readback = (\<lambda>v. v)\<rparr> 0)) =
     [\<lparr>closest_form = Some 0, disabled = False, innerHTML = ''Save''\<rparr>] \<and>
   buttons (advance (\<lambda>n. (False, 0)) 8000 (dispatch_submit 0 False
     (run (\<lambda>n. (False, 0))
        [(0, SubmitEvent 0 False), (3000, SubmitEvent 0 False), (3000, DocumentEvent ''keydown'')]
        (DOMContentLoaded
          \<lparr>pathname = ''/verify'', page_forms = [\<lparr>classList = [''needs-validation'']\<rparr>],
            page_buttons = [\<lparr>closest_form = Some 0, disabled = False, innerHTML = ''Save''\<rparr>],
            page_readback = (\<lambda>v. v)\<rparr> 0)))) =
     [\<lparr>closest_form = Some 0, disabled = False, innerHTML = busy_label\<rparr>] \<and>
   buttons (advance (\<lambda>n. (False, 0)) 11000 (dispatch_submit 0 False
     (run (\<lambda>n. (False, 0))
        [(0, SubmitEvent 0 False), (3000, SubmitEvent 0 False), (3000, DocumentEvent ''keydown'')]
        (DOMContentLoaded
          \<lparr>pathname = ''/verify'', page_forms = [\<lparr>classList = [''needs-validation'']\<rparr>],
            page_buttons = [\<lparr>closest_form = Some 0, disabled = False, innerHTML = ''Save''\<rparr>],
            page_readback = (\<lambda>v. v)\<rparr> 0)))) =
     [\<lparr>closest_form = Some 0, disabled = False, innerHTML = busy_label\<rparr>] \<and>
   timers (advance (\<lambda>n. (False, 0)) 11000 (dispatch_submit 0 False
     (run (\<lambda>n. (False, 0))
        [(0, SubmitEvent 0 False), (3000, SubmitEvent 0 False), (3000, DocumentEvent ''keydown'')]
        (DOMContentLoaded
          \<lparr>pathname = ''/verify'', page_forms = [\<lparr>classList = [''needs-validation'']\<rparr>],
            page_buttons = [\<lparr>closest_form = Some 0, disabled = False, innerHTML = ''Save''\<rparr>],
            page_readback = (\<lambda>v. v)\<rparr> 0)))) = [] \<and>
   busy_label \<noteq> ''Save''"
  by (simp add: eval_defs) (simp add: busy_label_def)

subsection \<open>The safety release\<close>

text \<open>
  Claim C6, as amended. In every state the page can reach, take a button for which no
  earlier release timer is pending, and let the lock listener run. It sets a timer due
  5000 ms later that carries the label read from the button. When that timer fires, in
  whatever state: if the button is disabled it is enabled and that label is assigned to
  it; if it is not, nothing changes but the timer leaving the pending set and the
  clock. If only time passes, the button is locked at every instant before the 5000 ms
  are over, and from then on it is enabled and shows the label it had before the lock
  as that markup reads back: the same bytes whenever the markup reads back unchanged.
\<close>

theorem auto_release_restores_label:
  assumes "s = run user tr (DOMContentLoaded p t0)"
    and "b < length (buttons s)" and "b < length (buttons s2)"
    and "\<forall>t \<in> set (timers s). \<not> releases b t"
    and "x = \<lparr>tid = next_id s, due = now s + 5000, cb = AutoRelease b (innerHTML (buttons s ! b))\<rparr>"
  shows "timers (lock_listener b s) = timers s @ [x] \<and>
         (disabled (buttons s2 ! b) \<longrightarrow>
            buttons (fire user x s2) =
              (buttons s2)[b := (buttons s2 ! b)\<lparr>disabled := False,
                               innerHTML := readback s2 (innerHTML (buttons s ! b))\<rparr>]) \<and>
         (\<not> disabled (buttons s2 ! b) \<longrightarrow>
            fire user x s2 =
              s2\<lparr>timers := filter (\<lambda>t. tid t \<noteq> tid x) (timers s2),
                 now := max (now s2) (due x)\<rparr>) \<and>
         (T < now s + 5000 \<longrightarrow>
            buttons (advance user T (lock_listener b s)) ! b =
              (buttons s ! b)\<lparr>disabled := True, innerHTML := page_readback p busy_label\<rparr>) \<and>
         (now s + 5000 \<le> T \<longrightarrow>
            buttons (advance user T (lock_listener b s)) ! b =
              (buttons s ! b)\<lparr>disabled := False,
                               innerHTML := page_readback p (innerHTML (buttons s ! b))\<rparr>) \<and>
         (now s + 5000 \<le> T \<and>
          page_readback p (innerHTML (buttons s ! b)) = innerHTML (buttons s ! b) \<longrightarrow>
            buttons (advance user T (lock_listener b s)) ! b =
              (buttons s ! b)\<lparr>disabled := False\<rparr>)"
proof -
  let ?s1 = "lock_listener b s"
  have ginv: "guard_inv ?s1"
    unfolding assms(1) by (intro guard_inv_lock_listener guard_inv_reachable)
  have rb: "readback s = page_readback p" unfolding assms(1) by (rule readback_reachable)
  have rb1: "readback ?s1 = page_readback p" using rb by (simp add: lock_listener_eq)
  have tm: "timers ?s1 = timers s @ [x]"
    using assms(2,5) by (simp add: lock_listener_eq safety_window_def)
  have lk: "buttons ?s1 ! b =
      (buttons s ! b)\<lparr>disabled := True, innerHTML := page_readback p busy_label\<rparr>"
    "b < length (buttons ?s1)"
    using assms(2) rb by (simp_all add: lock_listener_eq)
  have xs: "cb x = AutoRelease b (innerHTML (buttons s ! b))" "due x = now s + 5000"
    by (simp_all add: assms(5))
  have one: "filter (releases b) (timers ?s1) = [x]"
    using assms(4) by (simp add: tm filter_empty_conv) (simp add: assms(5))
  have still: "buttons (advance user T ?s1) ! b =
      (buttons s ! b)\<lparr>disabled := True, innerHTML := page_readback p busy_label\<rparr>"
    if "T < now s + 5000"
    using advance_still_locked [OF ginv one, of T user] that xs(2) lk(1) by simp
  have restored: "buttons (advance user T ?s1) ! b =
      (buttons s ! b)\<lparr>disabled := False,
                       innerHTML := page_readback p (innerHTML (buttons s ! b))\<rparr>"
    if "now s + 5000 \<le> T"
  proof -
    have "disabled (buttons ?s1 ! b)" by (simp add: lk(1))
    then have "buttons (advance user T ?s1) ! b =
        (buttons ?s1 ! b)\<lparr>disabled := False,
                           innerHTML := readback ?s1 (innerHTML (buttons s ! b))\<rparr>"
      using advance_released [OF ginv one xs(1) _ lk(2)] that xs(2) by simp
    then show ?thesis by (simp add: lk(1) rb1)
  qed
  have same: "buttons (advance user T ?s1) ! b = (buttons s ! b)\<lparr>disabled := False\<rparr>"
    if "now s + 5000 \<le> T" "page_readback p (innerHTML (buttons s ! b)) = innerHTML (buttons s ! b)"
    using restored [OF that(1)] that(2) by simp
  have fired: "disabled (buttons s2 ! b) \<longrightarrow>
      buttons (fire user x s2) =
        (buttons s2)[b := (buttons s2 ! b)\<lparr>disabled := False,
                         innerHTML := readback s2 (innerHTML (buttons s ! b))\<rparr>]"
    using assms(3) by (simp add: assms(5) fire_def auto_release_def)
  have idle: "\<not> disabled (buttons s2 ! b) \<longrightarrow>
      fire user x s2 =
        s2\<lparr>timers := filter (\<lambda>t. tid t \<noteq> tid x) (timers s2), now := max (now s2) (due x)\<rparr>"
    by (simp add: assms(5) fire_def auto_release_def)
  show ?thesis
    using tm fired idle still restored same by blast
qed

theorem auto_release_restores_label_witness:
  "buttons (advance (\<lambda>n. (False, 0)) 5000 (lock_listener 0 (run (\<lambda>n. (False, 0)) []
     (DOMContentLoaded
        \<lparr>pathname = ''/upload'', page_forms = [\<lparr>classList = []\<rparr>],
          page_buttons = [\<lparr>closest_form = Some 0, disabled = False, innerHTML = ''<b>Save</b>''\<rparr>],
          page_readback = (\<lambda>v. v)\<rparr> 0)))) ! 0 =
     \<lparr>closest_form = Some 0, disabled = False, innerHTML = ''<b>Save</b>''\<rparr> \<and>
   buttons (advance (\<lambda>n. (False, 0)) 4999 (lock_listener 0 (run (\<lambda>n. (False, 0)) []
     (DOMContentLoaded
        \<lparr>pathname = ''/upload'', page_forms = [\<lparr>classList = []\<rparr>],
          page_buttons = [\<lparr>closest_form = Some 0, disabled = False, innerHTML = ''<b>Save</b>''\<rparr>],
          page_readback = (\<lambda>v. v)\<rparr> 0)))) ! 0 =
     \<lparr>closest_form = Some 0, disabled = True, innerHTML = busy_label\<rparr>"
proof -
  let ?p = "\<lparr>pathname = ''/upload'', page_forms = [\<lparr>classList = []\<rparr>],
          page_buttons = [\<lparr>closest_form = Some 0, disabled = False, innerHTML = ''<b>Save</b>''\<rparr>],
          page_readback = (\<lambda>v. v)\<rparr>"
  let ?u = "\<lambda>n::nat. (False, 0::nat)"
  let ?s = "run ?u [] (DOMContentLoaded ?p 0)"
  let ?x = "\<lparr>tid = next_id ?s, due = now ?s + 5000, cb = AutoRelease 0 (innerHTML (buttons ?s ! 0))\<rparr>"
  have s: "now ?s = 0" "buttons ?s = [\<lparr>closest_form = Some 0, disabled = False, innerHTML = ''<b>Save</b>''\<rparr>]"
    "\<forall>t \<in> set (timers ?s). \<not> releases 0 t"
    by (simp_all add: DOMContentLoaded_eq releases_def)
  show ?thesis
    using s
      auto_release_restores_label [of ?s ?u "[]" ?p 0 0 ?s ?x 5000]
      auto_release_restores_label [of ?s ?u "[]" ?p 0 0 ?s ?x 4999]
    by simp
qed

text \<open>
  The claim as stated fails twice. First, with submit events at 0, 3000 and 6000 ms the
  timer of the second event fires at 8000 ms on a button that is locked, and gives it
  the busy markup, not ``Save''. Second, on a button whose label holds a \<^verbatim>\<open>pre\<close> element
  with text that starts with a line feed, one submit event and 5000 ms give a label
  that reads back without the line feed: not the same bytes.
\<close>

theorem release_not_original_label_counterexample:
  "\<lparr>tid = 3, due = 8000, cb = AutoRelease 0 busy_label\<rparr> \<in> set (timers
     (run (\<lambda>n. (False, 0))
        [(0, SubmitEvent 0 False), (3000, SubmitEvent 0 False), (3000, SubmitEvent 0 False)]
        (DOMContentLoaded
          \<lparr>pathname = ''/verify'', page_forms = [\<lparr>classList = [''needs-validation'']\<rparr>],
            page_buttons = [\<lparr>closest_form = Some 0, disabled = False, innerHTML = ''Save''\<rparr>],
            page_readback = (\<lambda>v. v)\<rparr> 0))) \<and>
   disabled (buttons
     (run (\<lambda>n. (False, 0))
        [(0, SubmitEvent 0 False), (3000, SubmitEvent 0 False), (3000, SubmitEvent 0 False)]
        (DOMContentLoaded
          \<lparr>pathname = ''/verify'', page_forms = [\<lparr>classList = [''needs-validation'']\<rparr>],
            page_buttons = [\<lparr>closest_form = Some 0, disabled = False, innerHTML = ''Save''\<rparr>],
            page_readback = (\<lambda>v. v)\<rparr> 0)) ! 0) \<and>
   buttons (fire (\<lambda>n. (False, 0)) \<lparr>tid = 3, due = 8000, cb = AutoRelease 0 busy_label\<rparr>
     (run (\<lambda>n. (False, 0))
        [(0, SubmitEvent 0 False), (3000, SubmitEvent 0 False), (3000, SubmitEvent 0 False)]
        (DOMContentLoaded
          \<lparr>pathname = ''/verify'', page_forms = [\<lparr>classList = [''needs-validation'']\<rparr>],
            page_buttons = [\<lparr>closest_form = Some 0, disabled = False, innerHTML = ''Save''\<rparr>],
            page_readback = (\<lambda>v. v)\<rparr> 0))) =
     [\<lparr>closest_form = Some 0, disabled = False, innerHTML = busy_label\<rparr>] \<and>
   busy_label \<noteq> ''Save'' \<and>
   innerHTML (buttons (advance (\<lambda>n. (False, 0)) 5000 (dispatch_submit 0 True
     (DOMContentLoaded
        \<lparr>pathname = ''/notes'', page_forms = [\<lparr>classList = []\<rparr>],
          page_buttons = [\<lparr>closest_form = Some 0, disabled = False,
                           innerHTML = ''<pre>\<newline>foo</pre>''\<rparr>],
          page_readback = (\<lambda>v. if v = ''<pre>\<newline>foo</pre>'' then ''<pre>foo</pre>'' else v)\<rparr>
        0))) ! 0) = ''<pre>foo</pre>'' \<and>
   ''<pre>foo</pre>'' \<noteq> ''<pre>\<newline>foo</pre>''"
  by (simp add: eval_defs) (simp add: busy_label_def)

end
